theory Spec2Isabelle
  imports Main "HOL-Library.Word" "HOL-Library.List_Lexorder"
begin

section \<open>JavaScript strings\<close>

text \<open>
  A JavaScript string is a sequence of UTF-16 code units. All the string operations of
  \<^verbatim>\<open>src/app/ceramic_marble_nocart.jsx\<close> (indexing, \<^verbatim>\<open>length\<close>, \<^verbatim>\<open>includes\<close>, \<^verbatim>\<open>split\<close>,
  \<^verbatim>\<open>trim\<close>, the regular expressions) count code units, so the model does too.
\<close>

type_synonym jschar = "16 word"
type_synonym jsstring = "jschar list"

text \<open>ASCII literals are written \<open>js ''...''\<close>.\<close>

definition js :: "string \<Rightarrow> jsstring" where
  "js = map of_char"

definition dquote :: jschar where "dquote = 0x22"
definition comma :: jschar where "comma = 0x2C"
definition LF :: jschar where "LF = 0x0A"
definition CR :: jschar where "CR = 0x0D"
definition slash :: jschar where "slash = 0x2F"
definition space :: jschar where "space = 0x20"
definition percent :: jschar where "percent = 0x25"

text \<open>
  \<^verbatim>\<open>String.prototype.trim\<close> removes ECMAScript WhiteSpace and LineTerminator code units
  from both ends: TAB, VT, FF, SP, NBSP, ZWNBSP (U+FEFF), the Unicode space separators
  (U+1680, U+2000..U+200A, U+202F, U+205F, U+3000), and LF, CR, U+2028, U+2029.
\<close>

definition isWhiteSpace :: "jschar \<Rightarrow> bool" where
  "isWhiteSpace c \<longleftrightarrow>
     c = 0x09 \<or> c = 0x0A \<or> c = 0x0B \<or> c = 0x0C \<or> c = 0x0D \<or> c = 0x20 \<or> c = 0xA0 \<or>
     c = 0x1680 \<or> (0x2000 \<le> c \<and> c \<le> 0x200A) \<or> c = 0x2028 \<or> c = 0x2029 \<or>
     c = 0x202F \<or> c = 0x205F \<or> c = 0x3000 \<or> c = 0xFEFF"

definition trim :: "jsstring \<Rightarrow> jsstring" where
  "trim s = rev (dropWhile isWhiteSpace (rev (dropWhile isWhiteSpace s)))"

text \<open>\<^verbatim>\<open>s.startsWith(t)\<close>, \<^verbatim>\<open>s.endsWith(t)\<close> and \<^verbatim>\<open>s.includes(t)\<close>.\<close>

definition startsWith :: "jsstring \<Rightarrow> jsstring \<Rightarrow> bool" where
  "startsWith s t \<longleftrightarrow> take (length t) s = t"

definition endsWith :: "jsstring \<Rightarrow> jsstring \<Rightarrow> bool" where
  "endsWith s t \<longleftrightarrow> length t \<le> length s \<and> drop (length s - length t) s = t"

fun includesStr :: "jsstring \<Rightarrow> jsstring \<Rightarrow> bool" where
  "includesStr [] t \<longleftrightarrow> t = []"
| "includesStr (c # cs) t \<longleftrightarrow> startsWith (c # cs) t \<or> includesStr cs t"

text \<open>
  \<^verbatim>\<open>s.split(sep)\<close> for a one-character separator: the result is never empty
  (\<^verbatim>\<open>"".split(",")\<close> is \<^verbatim>\<open>[""]\<close>); \<^verbatim>\<open>parts.join(sep)\<close> is its inverse.
\<close>

fun split_on :: "jschar \<Rightarrow> jsstring \<Rightarrow> jsstring list" where
  "split_on sep [] = [[]]"
| "split_on sep (c # cs) =
     (if c = sep then [] # split_on sep cs
      else (case split_on sep cs of
              p # ps \<Rightarrow> (c # p) # ps
            | [] \<Rightarrow> [[c]]))"

fun join :: "jschar \<Rightarrow> jsstring list \<Rightarrow> jsstring" where
  "join sep [] = []"
| "join sep [p] = p"
| "join sep (p # q # ps) = p @ sep # join sep (q # ps)"

text \<open>
  An optional string field (\<^verbatim>\<open>field?: string\<close>) is a \<open>jsstring option\<close>; \<open>None\<close> is
  \<^verbatim>\<open>undefined\<close>. A string is truthy when it is defined and not empty; \<^verbatim>\<open>x ?? ""\<close> is
  \<open>orEmpty\<close>.
\<close>

definition truthy :: "jsstring option \<Rightarrow> bool" where
  "truthy x \<longleftrightarrow> (case x of None \<Rightarrow> False | Some s \<Rightarrow> s \<noteq> [])"

definition orEmpty :: "jsstring option \<Rightarrow> jsstring" where
  "orEmpty x = (case x of None \<Rightarrow> [] | Some s \<Rightarrow> s)"

text \<open>\<^verbatim>\<open>const isNonEmpty = (s?: string) => !!s && s.trim().length > 0;\<close>\<close>

definition isNonEmpty :: "jsstring option \<Rightarrow> bool" where
  "isNonEmpty x \<longleftrightarrow> (case x of None \<Rightarrow> False | Some s \<Rightarrow> s \<noteq> [] \<and> trim s \<noteq> [])"

text \<open>
  \<^verbatim>\<open>const splitTags = (tags?: string): string[] =>
    isNonEmpty(tags) ? tags!.split(",").map((t) => t.trim()).filter(Boolean) : [];\<close>
\<close>

definition splitTags :: "jsstring option \<Rightarrow> jsstring list" where
  "splitTags tags =
     (if isNonEmpty tags
      then filter (\<lambda>t. t \<noteq> []) (map trim (split_on comma (orEmpty tags)))
      else [])"

section \<open>Numbers\<close>

text \<open>
  The only numbers of the pipeline are item ids. \<open>Num n\<close> is the integer \<open>n\<close>.
  \<open>NumberOf t\<close> stands for the value \<^verbatim>\<open>Number(t)\<close> of a trimmed string \<open>t\<close> that is not
  a plain run of at most 15 decimal digits (a sign, fraction, exponent, radix prefix,
  \<^verbatim>\<open>Infinity\<close>, or anything that yields \<^verbatim>\<open>NaN\<close>): the model carries it unevaluated.
\<close>

datatype jsnumber = Num int | NumberOf jsstring

definition isDigit :: "jschar \<Rightarrow> bool" where
  "isDigit c \<longleftrightarrow> 0x30 \<le> c \<and> c \<le> 0x39"

definition decimalValue :: "jsstring \<Rightarrow> nat" where
  "decimalValue t = foldl (\<lambda>acc c. 10 * acc + (unat c - 48)) 0 t"

text \<open>
  \<^verbatim>\<open>Number(s)\<close> on a string: surrounding white space is ignored, the empty string is
  \<open>0\<close>, a run of decimal digits is its value (exact below \<open>2^53\<close>).
\<close>

definition Number_of_string :: "jsstring \<Rightarrow> jsnumber" where
  "Number_of_string s =
     (let t = trim s in
      if t = [] then Num 0
      else if list_all isDigit t \<and> length t \<le> 15 then Num (int (decimalValue t))
      else NumberOf t)"

fun digitsOf :: "nat \<Rightarrow> jsstring" where
  "digitsOf n =
     (if n < 10 then [of_nat (48 + n)]
      else digitsOf (n div 10) @ [of_nat (48 + n mod 10)])"

text \<open>
  The string form of a number inside a template literal. The rendering of an unevaluated
  \<open>NumberOf t\<close> is a parameter.
\<close>

definition numberToString :: "(jsstring \<Rightarrow> jsstring) \<Rightarrow> jsnumber \<Rightarrow> jsstring" where
  "numberToString other n =
     (case n of
        Num i \<Rightarrow> (if i < 0 then 0x2D # digitsOf (nat (- i)) else digitsOf (nat i))
      | NumberOf t \<Rightarrow> other t)"

section \<open>Data model\<close>

text \<open>\<^verbatim>\<open>export type MediaKind = "image" | "video";\<close>\<close>

datatype MediaKind = Image | Video

text \<open>
  \<^verbatim>\<open>export interface MediaItem\<close>. The fields \<^verbatim>\<open>id\<close> and \<^verbatim>\<open>type\<close> are primed because the
  plain names are taken.
\<close>

record MediaItem =
  id' :: jsnumber
  rid :: "jsstring option"
  name :: jsstring
  displayName :: "jsstring option"
  category :: "jsstring option"
  type' :: MediaKind
  src :: jsstring
  original_ext :: "jsstring option"
  folder :: "jsstring option"
  tags :: "jsstring option"
  colorName :: "jsstring option"
  colorHex :: "jsstring option"
  year :: "jsstring option"
  month :: "jsstring option"

section \<open>CSV helpers\<close>

text \<open>\<^verbatim>\<open>const stripBOM = (text: string) => text.replace(/^\uFEFF/, "");\<close>\<close>

definition stripBOM :: "jsstring \<Rightarrow> jsstring" where
  "stripBOM text = (case text of [] \<Rightarrow> [] | c # cs \<Rightarrow> if c = 0xFEFF then cs else text)"

text \<open>\<^verbatim>\<open>.replace(/\r\n/g, "\n")\<close>\<close>

fun replaceCRLF :: "jsstring \<Rightarrow> jsstring" where
  "replaceCRLF [] = []"
| "replaceCRLF [a] = [a]"
| "replaceCRLF (a # b # cs) =
     (if a = CR \<and> b = LF then LF # replaceCRLF cs else a # replaceCRLF (b # cs))"

text \<open>
  The scanning loop of \<^verbatim>\<open>parseCSV\<close>, as a recursion over the text from index \<^verbatim>\<open>i\<close> on.
  The state is \<^verbatim>\<open>inQuotes\<close>, \<^verbatim>\<open>cur\<close>, \<^verbatim>\<open>row\<close> and \<^verbatim>\<open>rows\<close>; \<^verbatim>\<open>next\<close> is the head of the rest
  (\<^verbatim>\<open>undefined\<close> at the end, which is no quote). The escaped quote consumes two code units
  (\<^verbatim>\<open>i++\<close>).
\<close>

fun scanCSV ::
  "bool \<Rightarrow> jsstring \<Rightarrow> jsstring list \<Rightarrow> jsstring list list \<Rightarrow> jsstring \<Rightarrow>
   jsstring \<times> jsstring list \<times> jsstring list list" where
  "scanCSV inQuotes cur row rows [] = (cur, row, rows)"
| "scanCSV inQuotes cur row rows (ch # rest) =
     (if inQuotes then
        (if ch = dquote \<and> (case rest of [] \<Rightarrow> False | next # _ \<Rightarrow> next = dquote)
           then scanCSV True (cur @ [dquote]) row rows (tl rest)
         else if ch = dquote then scanCSV False cur row rows rest
         else scanCSV True (cur @ [ch]) row rows rest)
      else
        (if ch = dquote then scanCSV True cur row rows rest
         else if ch = comma then scanCSV False [] (row @ [cur]) rows rest
         else if ch = LF then scanCSV False [] [] (rows @ [row @ [cur]]) rest
         else scanCSV False (cur @ [ch]) row rows rest))"

text \<open>
  \<^verbatim>\<open>function parseCSV(text: string): string[][]\<close>: the loop, the trailing field and row,
  and the final filter that drops empty rows and rows made of one empty field.
\<close>

definition keepRow :: "jsstring list \<Rightarrow> bool" where
  "keepRow r \<longleftrightarrow> r \<noteq> [] \<and> \<not> (length r = 1 \<and> r ! 0 = [])"

definition parseCSV :: "jsstring \<Rightarrow> jsstring list list" where
  "parseCSV text =
     (case scanCSV False [] [] [] (replaceCRLF (stripBOM text)) of
        (cur, row, rows) \<Rightarrow>
          filter keepRow (if cur \<noteq> [] \<or> row \<noteq> [] then rows @ [row @ [cur]] else rows))"

text \<open>
  \<^verbatim>\<open>type RowObj = Record<string, string>\<close>: a finite map from header names to values.
  \<^verbatim>\<open>r[idx] ?? ""\<close> is \<open>cell r idx\<close>. \<^verbatim>\<open>headers.forEach((h, idx) => (obj[h] = ...))\<close> assigns
  left to right, so a repeated header keeps the value of its last column.
\<close>

type_synonym RowObj = "jsstring \<rightharpoonup> jsstring"

definition cell :: "jsstring list \<Rightarrow> nat \<Rightarrow> jsstring" where
  "cell r idx = (if idx < length r then r ! idx else [])"

fun assignCells :: "jsstring list \<Rightarrow> nat \<Rightarrow> jsstring list \<Rightarrow> RowObj \<Rightarrow> RowObj" where
  "assignCells [] idx r obj = obj"
| "assignCells (h # hs) idx r obj = assignCells hs (Suc idx) r (obj(h \<mapsto> trim (cell r idx)))"

definition rowObj :: "jsstring list \<Rightarrow> jsstring list \<Rightarrow> RowObj" where
  "rowObj headers r = assignCells headers 0 r Map.empty"

text \<open>\<^verbatim>\<open>function csvToObjects(text: string): RowObj[]\<close>\<close>

definition csvToObjects :: "jsstring \<Rightarrow> RowObj list" where
  "csvToObjects text =
     (case parseCSV text of
        [] \<Rightarrow> []
      | hrow # rrows \<Rightarrow> map (rowObj (map trim hrow)) rrows)"

section \<open>The CSV branch of \<^verbatim>\<open>load\<close>\<close>

text \<open>
  The callback of \<^verbatim>\<open>rows.map((o, idx) => ({ ... }))\<close> (the row object \<^verbatim>\<open>o\<close> is \<open>obj\<close>). \<^verbatim>\<open>o.id ?? idx + 1\<close> takes the row
  position only when \<^verbatim>\<open>o.id\<close> is \<^verbatim>\<open>undefined\<close>; \<^verbatim>\<open>o.rid || undefined\<close> and
  \<^verbatim>\<open>o.category || undefined\<close> also map the empty string to \<^verbatim>\<open>undefined\<close>.
\<close>

definition orUndefined :: "jsstring option \<Rightarrow> jsstring option" where
  "orUndefined x = (if truthy x then x else None)"

definition rowToItem :: "nat \<Rightarrow> RowObj \<Rightarrow> MediaItem" where
  "rowToItem idx obj =
     \<lparr> id' = (case obj (js ''id'') of None \<Rightarrow> Num (int idx + 1) | Some s \<Rightarrow> Number_of_string s),
       rid = orUndefined (obj (js ''rid'')),
       name = orEmpty (obj (js ''name'')),
       displayName = obj (js ''displayName''),
       category = orUndefined (obj (js ''category'')),
       type' = (if obj (js ''type'') = Some (js ''video'') then Video else Image),
       src = orEmpty (obj (js ''src'')),
       original_ext = obj (js ''original_ext''),
       folder = obj (js ''folder''),
       tags = obj (js ''tags''),
       colorName = obj (js ''colorName''),
       colorHex = obj (js ''colorHex''),
       year = obj (js ''year''),
       month = obj (js ''month'') \<rparr>"

text \<open>The raw item list built from the text of the CSV resource.\<close>

definition csvItems :: "jsstring \<Rightarrow> MediaItem list" where
  "csvItems text =
     (let rows = csvToObjects text in map (\<lambda>idx. rowToItem idx (rows ! idx)) [0..<length rows])"

section \<open>Filter engine\<close>

text \<open>
  The \<^verbatim>\<open>filtered\<close> memo of the component, as a function of the state it reads:
  \<^verbatim>\<open>items\<close>, \<^verbatim>\<open>q\<close>, \<^verbatim>\<open>activeTags\<close>, \<^verbatim>\<open>activeCategories\<close>.
\<close>

definition itemMatches ::
  "(jsstring \<Rightarrow> jsstring) \<Rightarrow> jsstring \<Rightarrow> jsstring list \<Rightarrow> jsstring list \<Rightarrow> MediaItem \<Rightarrow> bool" where
  "itemMatches other qq activeTags activeCategories it =
     (let titleText = (case rid it of Some r \<Rightarrow> r | None \<Rightarrow> numberToString other (id' it));
          extra = orEmpty (category it) @ space # orEmpty (colorName it) @ space # name it
                    @ space # orEmpty (displayName it);
          nameHit = (qq = [] \<or> includesStr (titleText @ space # extra) qq);
          tagHit = (if activeTags \<noteq> []
                    then list_ex (\<lambda>t. t \<in> set (splitTags (tags it)) \<or> colorName it = Some t)
                           activeTags
                    else True);
          catHit = (if activeCategories \<noteq> []
                    then orEmpty (category it) \<in> set activeCategories
                    else True)
      in nameHit \<and> tagHit \<and> catHit)"

definition filtered ::
  "(jsstring \<Rightarrow> jsstring) \<Rightarrow> MediaItem list \<Rightarrow> jsstring \<Rightarrow> jsstring list \<Rightarrow> jsstring list \<Rightarrow>
   MediaItem list" where
  "filtered other items q activeTags activeCategories =
     (let qq = trim q in filter (itemMatches other qq activeTags activeCategories) items)"

section \<open>URI encoding\<close>

text \<open>
  \<^verbatim>\<open>encodeURIComponent\<close> (ECMAScript \<^verbatim>\<open>Encode\<close> with the unreserved set of letters, digits
  and \<^verbatim>\<open>-_.!~*'()\<close>): an unreserved code unit is copied; any other code point is written as
  the percent-escapes of its UTF-8 octets, with upper-case hexadecimal digits; an unpaired
  surrogate raises \<^verbatim>\<open>URIError\<close>, which is \<open>None\<close>.
\<close>

definition isUnreserved :: "jschar \<Rightarrow> bool" where
  "isUnreserved c \<longleftrightarrow>
     c \<in> set (js ''ABCDEFGHIJKLMNOPQRSTUVWXYZabcdefghijklmnopqrstuvwxyz0123456789-_.!~*'()'')"

definition isLeadSurrogate :: "jschar \<Rightarrow> bool" where
  "isLeadSurrogate c \<longleftrightarrow> 0xD800 \<le> c \<and> c \<le> 0xDBFF"

definition isTrailSurrogate :: "jschar \<Rightarrow> bool" where
  "isTrailSurrogate c \<longleftrightarrow> 0xDC00 \<le> c \<and> c \<le> 0xDFFF"

definition pairCodePoint :: "jschar \<Rightarrow> jschar \<Rightarrow> nat" where
  "pairCodePoint c d = (unat c - 0xD800) * 0x400 + (unat d - 0xDC00) + 0x10000"

definition utf8 :: "nat \<Rightarrow> nat list" where
  "utf8 cp =
     (if cp < 0x80 then [cp]
      else if cp < 0x800 then [0xC0 + cp div 64, 0x80 + cp mod 64]
      else if cp < 0x10000 then [0xE0 + cp div 4096, 0x80 + (cp div 64) mod 64, 0x80 + cp mod 64]
      else [0xF0 + cp div 262144, 0x80 + (cp div 4096) mod 64, 0x80 + (cp div 64) mod 64,
            0x80 + cp mod 64])"

definition hexDigit :: "nat \<Rightarrow> jschar" where
  "hexDigit n = js ''0123456789ABCDEF'' ! n"

definition percentEncode :: "nat list \<Rightarrow> jsstring" where
  "percentEncode octets =
     concat (map (\<lambda>b. [percent, hexDigit (b div 16), hexDigit (b mod 16)]) octets)"

fun encodeURIComponent :: "jsstring \<Rightarrow> jsstring option" where
  "encodeURIComponent [] = Some []"
| "encodeURIComponent (c # cs) =
     (if isUnreserved c then map_option ((#) c) (encodeURIComponent cs)
      else if isLeadSurrogate c then
        (case cs of
           [] \<Rightarrow> None
         | d # ds \<Rightarrow>
             if isTrailSurrogate d
             then map_option ((@) (percentEncode (utf8 (pairCodePoint c d))))
                    (encodeURIComponent ds)
             else None)
      else if isTrailSurrogate c then None
      else map_option ((@) (percentEncode (utf8 (unat c)))) (encodeURIComponent cs))"

text \<open>
  \<^verbatim>\<open>decodeURIComponent\<close> (ECMAScript \<^verbatim>\<open>Decode\<close> with an empty reserved set): a code unit
  other than \<^verbatim>\<open>%\<close> is copied; \<^verbatim>\<open>%XX\<close> below \<open>0x80\<close> is that code unit; a lead octet
  announces \<open>n\<close> octets in all, the next \<open>n - 1\<close> escapes are read, and the octets must be a
  valid UTF-8 encoding of a code point, which is appended in UTF-16. Everything else
  raises \<^verbatim>\<open>URIError\<close> (\<open>None\<close>).
\<close>

definition hexVal :: "jschar \<Rightarrow> nat option" where
  "hexVal c =
     (if 0x30 \<le> c \<and> c \<le> 0x39 then Some (unat c - 0x30)
      else if 0x41 \<le> c \<and> c \<le> 0x46 then Some (unat c - 0x41 + 10)
      else if 0x61 \<le> c \<and> c \<le> 0x66 then Some (unat c - 0x61 + 10)
      else None)"

definition readOctet :: "jsstring \<Rightarrow> nat option" where
  "readOctet s =
     (case s of
        h1 # h2 # _ \<Rightarrow>
          (case hexVal h1 of
             None \<Rightarrow> None
           | Some a \<Rightarrow> (case hexVal h2 of None \<Rightarrow> None | Some b \<Rightarrow> Some (16 * a + b)))
      | _ \<Rightarrow> None)"

fun contOctets :: "nat \<Rightarrow> jsstring \<Rightarrow> nat list option" where
  "contOctets 0 s = Some []"
| "contOctets (Suc m) [] = None"
| "contOctets (Suc m) (p # rest) =
     (if p = percent
      then (case readOctet rest of
              None \<Rightarrow> None
            | Some b \<Rightarrow> map_option ((#) b) (contOctets m (drop 2 rest)))
      else None)"

definition leadingOnes :: "nat \<Rightarrow> nat" where
  "leadingOnes b =
     (if b < 0x80 then 0 else if b < 0xC0 then 1 else if b < 0xE0 then 2
      else if b < 0xF0 then 3 else if b < 0xF8 then 4 else 5)"

definition isCont :: "nat \<Rightarrow> bool" where
  "isCont b \<longleftrightarrow> 0x80 \<le> b \<and> b < 0xC0"

text \<open>The code point of a valid UTF-8 sequence: no overlong form, no surrogate, at most U+10FFFF.\<close>

definition utf8Decode :: "nat list \<Rightarrow> nat option" where
  "utf8Decode octets =
     (case octets of
        [b0, b1] \<Rightarrow>
          (let v = (b0 - 0xC0) * 64 + (b1 - 0x80)
           in if isCont b1 \<and> 0x80 \<le> v then Some v else None)
      | [b0, b1, b2] \<Rightarrow>
          (let v = (b0 - 0xE0) * 4096 + (b1 - 0x80) * 64 + (b2 - 0x80)
           in if isCont b1 \<and> isCont b2 \<and> 0x800 \<le> v \<and> \<not> (0xD800 \<le> v \<and> v \<le> 0xDFFF)
              then Some v else None)
      | [b0, b1, b2, b3] \<Rightarrow>
          (let v = (b0 - 0xF0) * 262144 + (b1 - 0x80) * 4096 + (b2 - 0x80) * 64 + (b3 - 0x80)
           in if isCont b1 \<and> isCont b2 \<and> isCont b3 \<and> 0x10000 \<le> v \<and> v \<le> 0x10FFFF
              then Some v else None)
      | _ \<Rightarrow> None)"

definition utf16 :: "nat \<Rightarrow> jsstring" where
  "utf16 v =
     (if v < 0x10000 then [of_nat v]
      else [of_nat (0xD800 + (v - 0x10000) div 0x400), of_nat (0xDC00 + (v - 0x10000) mod 0x400)])"

fun decodeURIComponent :: "jsstring \<Rightarrow> jsstring option" where
  "decodeURIComponent [] = Some []"
| "decodeURIComponent (c # cs) =
     (if c \<noteq> percent then map_option ((#) c) (decodeURIComponent cs)
      else
        (case readOctet cs of
           None \<Rightarrow> None
         | Some b \<Rightarrow>
             (let n = leadingOnes b in
              if n = 0 then map_option ((#) (of_nat b)) (decodeURIComponent (drop 2 cs))
              else if n = 1 \<or> 4 < n then None
              else
                (case contOctets (n - 1) (drop 2 cs) of
                   None \<Rightarrow> None
                 | Some bs \<Rightarrow>
                     (case utf8Decode (b # bs) of
                        None \<Rightarrow> None
                      | Some v \<Rightarrow>
                          map_option ((@) (utf16 v))
                            (decodeURIComponent (drop (2 + 3 * (n - 1)) cs)))))))"

text \<open>
  \<^verbatim>\<open>function safeDecode(s: string): string {
    try { return decodeURIComponent(s); } catch { return s; } }\<close>
\<close>

definition safeDecode :: "jsstring \<Rightarrow> jsstring" where
  "safeDecode s = (case decodeURIComponent s of None \<Rightarrow> s | Some t \<Rightarrow> t)"

section \<open>Small utilities of the normalizer\<close>

text \<open>
  Case-insensitive matching of a regular expression without the \<^verbatim>\<open>u\<close> flag compares
  canonical (upper-case) forms, and a code unit outside ASCII never canonicalizes into ASCII:
  against an ASCII pattern it is ASCII case folding.
\<close>

definition toUpperASCII :: "jschar \<Rightarrow> jschar" where
  "toUpperASCII c = (if 0x61 \<le> c \<and> c \<le> 0x7A then c - 0x20 else c)"

definition eqCI :: "jsstring \<Rightarrow> jsstring \<Rightarrow> bool" where
  "eqCI s t \<longleftrightarrow> map toUpperASCII s = map toUpperASCII t"

definition startsWithCI :: "jsstring \<Rightarrow> jsstring \<Rightarrow> bool" where
  "startsWithCI s t \<longleftrightarrow> eqCI (take (length t) s) t"

definition endsWithCI :: "jsstring \<Rightarrow> jsstring \<Rightarrow> bool" where
  "endsWithCI s t \<longleftrightarrow> length t \<le> length s \<and> eqCI (drop (length s - length t) s) t"

text \<open>\<^verbatim>\<open>/^https?:\/\//i.test(p)\<close>\<close>

definition hasProto :: "jsstring \<Rightarrow> bool" where
  "hasProto p \<longleftrightarrow> startsWithCI p (js ''http://'') \<or> startsWithCI p (js ''https://'')"

text \<open>
  \<^verbatim>\<open>function normalizeUrlPath(p: string): string\<close>. \<^verbatim>\<open>p.replace(/^\/+/, "")\<close> drops the
  leading slashes; each part of the split is encoded; \<open>None\<close> is the \<^verbatim>\<open>URIError\<close> of
  \<^verbatim>\<open>encodeURIComponent\<close>.
\<close>

definition normalizeUrlPath :: "jsstring \<Rightarrow> jsstring option" where
  "normalizeUrlPath p =
     (if p = [] then Some p
      else if hasProto p then Some p
      else
        (let leading = (if startsWith p [slash] then [slash] else []) in
         case those (map encodeURIComponent (split_on slash (dropWhile (\<lambda>c. c = slash) p))) of
           None \<Rightarrow> None
         | Some parts \<Rightarrow> Some (leading @ join slash parts)))"

text \<open>
  \<^verbatim>\<open>function shouldSkipPath(src: string): boolean\<close>. \<^verbatim>\<open>String.prototype.toLowerCase\<close>
  follows the Unicode case tables; it is the parameter \<open>toLowerCase\<close>.
\<close>

definition shouldSkipPath :: "(jsstring \<Rightarrow> jsstring) \<Rightarrow> jsstring \<Rightarrow> bool" where
  "shouldSkipPath toLowerCase src' =
     (let s = toLowerCase src' in
      if includesStr s (js ''/._'') then True
      else if endsWith s (js ''.ds_store'') then True
      else if endsWith s (js ''.heic'') \<or> endsWith s (js ''.aae'') then True
      else if endsWith s (js ''thumbs.db'') then True
      else False)"

text \<open>On a string of ASCII code units \<^verbatim>\<open>toLowerCase\<close> is this function.\<close>

definition asciiLower :: "jsstring \<Rightarrow> jsstring" where
  "asciiLower = map (\<lambda>c. if 0x41 \<le> c \<and> c \<le> 0x5A then c + 0x20 else c)"

subsection \<open>\<^verbatim>\<open>cleanFileName\<close>\<close>

text \<open>The character classes \<^verbatim>\<open>[-_ ]\<close> and \<^verbatim>\<open>[-_]\<close>.\<close>

definition isSep :: "jschar \<Rightarrow> bool" where
  "isSep c \<longleftrightarrow> c = 0x2D \<or> c = 0x5F \<or> c = 0x20"

definition isDash :: "jschar \<Rightarrow> bool" where
  "isDash c \<longleftrightarrow> c = 0x2D \<or> c = 0x5F"

text \<open>\<^verbatim>\<open>.replace(/^whatsapp[-_ ]image[-_ ]/i, "")\<close>\<close>

definition stripWhatsappPrefix :: "jsstring \<Rightarrow> jsstring" where
  "stripWhatsappPrefix s =
     (if 15 \<le> length s \<and> eqCI (take 8 s) (js ''whatsapp'') \<and> isSep (s ! 8) \<and>
         eqCI (take 5 (drop 9 s)) (js ''image'') \<and> isSep (s ! 14)
      then drop 15 s else s)"

text \<open>
  \<^verbatim>\<open>.replace(/[-_ ]at[-_ ]\d{6,}/i, "")\<close>: the leftmost match is removed; \<^verbatim>\<open>\d{6,}\<close> is
  greedy, so the match takes every digit that follows.
\<close>

definition atStampLen :: "jsstring \<Rightarrow> nat option" where
  "atStampLen s =
     (if 4 \<le> length s \<and> isSep (s ! 0) \<and> eqCI (take 2 (drop 1 s)) (js ''at'') \<and> isSep (s ! 3)
      then (let k = length (takeWhile isDigit (drop 4 s)) in if 6 \<le> k then Some (4 + k) else None)
      else None)"

fun removeAtStamp :: "jsstring \<Rightarrow> jsstring" where
  "removeAtStamp [] = []"
| "removeAtStamp (c # cs) =
     (case atStampLen (c # cs) of
        Some n \<Rightarrow> drop n (c # cs)
      | None \<Rightarrow> c # removeAtStamp cs)"

text \<open>\<^verbatim>\<open>.replace(/\.(jpe?g|png|webp|gif|mp4|mov|mkv|avi)$/i, "")\<close>\<close>

definition mediaExtensions :: "jsstring list" where
  "mediaExtensions =
     [js ''jpeg'', js ''jpg'', js ''png'', js ''webp'', js ''gif'', js ''mp4'', js ''mov'',
      js ''mkv'', js ''avi'']"

definition stripMediaExt :: "jsstring \<Rightarrow> jsstring" where
  "stripMediaExt s =
     (case find (\<lambda>e. endsWithCI s (0x2E # e)) mediaExtensions of
        Some e \<Rightarrow> take (length s - (length e + 1)) s
      | None \<Rightarrow> s)"

text \<open>\<^verbatim>\<open>.replace(/[-_]+/g, " ")\<close>: every maximal run of \<^verbatim>\<open>-\<close> and \<^verbatim>\<open>_\<close> becomes one space.\<close>

function collapseDashes :: "jsstring \<Rightarrow> jsstring" where
  "collapseDashes [] = []"
| "collapseDashes (c # cs) =
     (if isDash c then space # collapseDashes (dropWhile isDash cs)
      else c # collapseDashes cs)"
  by pat_completeness auto
termination
  by (relation "measure length") (auto simp: length_dropWhile_le less_Suc_eq_le)

definition cleanFileName :: "jsstring \<Rightarrow> jsstring" where
  "cleanFileName s =
     trim (collapseDashes (stripMediaExt (removeAtStamp (stripWhatsappPrefix s))))"

subsection \<open>Categories\<close>

text \<open>
  \<^verbatim>\<open>const ZIP_CATEGORIES\<close>: the four labels, in UTF-16 code units, and the placeholder
  category that is never shown (mim, nun, teh, jeem).
\<close>

definition catBasins :: jsstring where
  "catBasins = [0x645, 0x63A, 0x627, 0x633, 0x644]"

definition catMarbleCeramic :: jsstring where
  "catMarbleCeramic =
     [0x631, 0x62E, 0x627, 0x645, 0x20, 0x648, 0x20, 0x633, 0x64A, 0x631, 0x627, 0x645, 0x64A, 0x643]"

definition catStairsTables :: jsstring where
  "catStairsTables = [0x62F, 0x631, 0x62C, 0x20, 0x648, 0x637, 0x627, 0x648, 0x644, 0x627, 0x62A]"

definition catWoodBackdrops :: jsstring where
  "catWoodBackdrops = [0x62E, 0x644, 0x641, 0x64A, 0x627, 0x62A, 0x20, 0x62E, 0x634, 0x628]"

definition ZIP_CATEGORIES :: "jsstring list" where
  "ZIP_CATEGORIES = [catBasins, catMarbleCeramic, catStairsTables, catWoodBackdrops]"

definition sentinel :: jsstring where
  "sentinel = [0x645, 0x646, 0x62A, 0x62C]"

text \<open>
  \<^verbatim>\<open>function deriveCategoryFromPath(it)\<close>: an explicit category other than the placeholder
  is kept; otherwise the first label of \<^verbatim>\<open>ZIP_CATEGORIES\<close> found in the decoded
  \<^verbatim>\<open>`${it.folder ?? ""} ${it.src ?? ""}`\<close>.
\<close>

definition deriveCategoryFromPath :: "MediaItem \<Rightarrow> jsstring option" where
  "deriveCategoryFromPath it =
     (if truthy (category it) \<and> category it \<noteq> Some sentinel then category it
      else
        (let hay = safeDecode (orEmpty (folder it) @ space # src it)
         in find (\<lambda>cat. includesStr hay cat) ZIP_CATEGORIES))"

text \<open>\<^verbatim>\<open>const buildDisplayName = (it: MediaItem) => ...\<close>\<close>

definition buildDisplayName :: "MediaItem \<Rightarrow> jsstring" where
  "buildDisplayName it =
     (let color = map_option trim (colorName it);
          cat = category it
      in if truthy cat \<and> truthy color then orEmpty cat @ space # orEmpty color
         else if truthy cat then orEmpty cat
         else if truthy color then orEmpty color
         else cleanFileName (name it))"

section \<open>Item normalizer\<close>

text \<open>
  \<^verbatim>\<open>encodedSrc.match(/\/(20\d{2})\/(\d{2})\//)\<close>: the two groups of the leftmost match.
\<close>

fun matchYearMonth :: "jsstring \<Rightarrow> (jsstring \<times> jsstring) option" where
  "matchYearMonth [] = None"
| "matchYearMonth (c # cs) =
     (let w = take 9 (c # cs) in
      if length w = 9 \<and> w ! 0 = slash \<and> w ! 1 = 0x32 \<and> w ! 2 = 0x30 \<and> isDigit (w ! 3) \<and>
         isDigit (w ! 4) \<and> w ! 5 = slash \<and> isDigit (w ! 6) \<and> isDigit (w ! 7) \<and> w ! 8 = slash
      then Some (take 4 (drop 1 w), take 2 (drop 6 w))
      else matchYearMonth cs)"

text \<open>
  The pattern in the words of the specification: a segment \<^verbatim>\<open>/20NN/NN/\<close>, a four-digit year
  that starts with \<^verbatim>\<open>20\<close> and a two-digit month between slashes.
\<close>

definition isYear20 :: "jsstring \<Rightarrow> bool" where
  "isYear20 y \<longleftrightarrow> length y = 4 \<and> take 2 y = js ''20'' \<and> list_all isDigit y"

definition isMonth2 :: "jsstring \<Rightarrow> bool" where
  "isMonth2 mo \<longleftrightarrow> length mo = 2 \<and> list_all isDigit mo"

definition hasDateSegment :: "jsstring \<Rightarrow> bool" where
  "hasDateSegment s \<longleftrightarrow>
     (\<exists>pre y mo post. s = pre @ slash # y @ slash # mo @ slash # post \<and> isYear20 y \<and> isMonth2 mo)"

text \<open>\<^verbatim>\<open>!x || x.startsWith?.("unknown")\<close> for an optional string \<^verbatim>\<open>x\<close>.\<close>

definition missingOrUnknown :: "jsstring option \<Rightarrow> bool" where
  "missingOrUnknown x \<longleftrightarrow> \<not> truthy x \<or> startsWith (orEmpty x) (js ''unknown'')"

text \<open>The callback of \<^verbatim>\<open>arr.map((it) => { ... })\<close> in \<^verbatim>\<open>normalizeItems\<close>.\<close>

definition normalizeItem :: "MediaItem \<Rightarrow> MediaItem option" where
  "normalizeItem it =
     (case normalizeUrlPath (src it) of
        None \<Rightarrow> None
      | Some encodedSrc \<Rightarrow>
          (let m = matchYearMonth encodedSrc;
               year1 = (case m of
                          Some (y, mo) \<Rightarrow> if missingOrUnknown (year it) then Some y else year it
                        | None \<Rightarrow> year it);
               month1 = (case m of
                           Some (y, mo) \<Rightarrow> if missingOrUnknown (month it) then Some mo else month it
                         | None \<Rightarrow> month it);
               category1 = deriveCategoryFromPath (it\<lparr>src := encodedSrc\<rparr>);
               displayName1 = buildDisplayName (it\<lparr>src := encodedSrc, category := category1\<rparr>)
           in Some (it\<lparr>src := encodedSrc, year := year1, month := month1,
                       category := category1, displayName := Some displayName1\<rparr>)))"

text \<open>
  \<^verbatim>\<open>function normalizeItems(arr: MediaItem[]): MediaItem[]\<close>: the map runs over the whole
  array before the filter, so one \<^verbatim>\<open>URIError\<close> aborts the call (\<open>None\<close>).
\<close>

definition keepItem :: "(jsstring \<Rightarrow> jsstring) \<Rightarrow> MediaItem \<Rightarrow> bool" where
  "keepItem toLowerCase m \<longleftrightarrow> isNonEmpty (Some (src m)) \<and> \<not> shouldSkipPath toLowerCase (src m)"

definition normalizeItems :: "(jsstring \<Rightarrow> jsstring) \<Rightarrow> MediaItem list \<Rightarrow> MediaItem list option" where
  "normalizeItems toLowerCase arr =
     map_option (filter (keepItem toLowerCase)) (those (map normalizeItem arr))"

text \<open>
  The body of \<^verbatim>\<open>load\<close>, as a function of what the two fetches deliver: \<open>json\<close> is the decoded
  array of the JSON resource and \<open>csv\<close> the text of the CSV resource, each \<open>None\<close> when the
  fetch fails or the response is not ok. The CSV is read only when the JSON gave no item;
  the result is what \<^verbatim>\<open>setItems\<close> receives.
\<close>

definition load ::
  "(jsstring \<Rightarrow> jsstring) \<Rightarrow> MediaItem list option \<Rightarrow> jsstring option \<Rightarrow> MediaItem list option" where
  "load toLowerCase json csv =
     (let data = (case json of None \<Rightarrow> [] | Some d \<Rightarrow> d);
          data1 = (if data = []
                   then (case csv of None \<Rightarrow> data | Some text \<Rightarrow> csvItems text)
                   else data)
      in normalizeItems toLowerCase data1)"

section \<open>Facet extractor\<close>

text \<open>
  A \<^verbatim>\<open>Set<string>\<close> iterates in insertion order: a list without repetition, \<^verbatim>\<open>add\<close>
  appending a value that is not yet there.
\<close>

definition setAdd :: "jsstring \<Rightarrow> jsstring list \<Rightarrow> jsstring list" where
  "setAdd x s = (if x \<in> set s then s else s @ [x])"

text \<open>\<^verbatim>\<open>CAT_ORDER.indexOf(a)\<close>: the first position, or \<open>-1\<close>.\<close>

fun indexOf :: "jsstring list \<Rightarrow> jsstring \<Rightarrow> int" where
  "indexOf [] a = - 1"
| "indexOf (b # bs) a =
     (if b = a then 0 else (let i = indexOf bs a in if i < 0 then - 1 else i + 1))"

record Unique =
  uniq_tags :: "jsstring list"
  uniq_colors :: "jsstring list"
  uniq_categories :: "jsstring list"

text \<open>The body of \<^verbatim>\<open>for (const it of items)\<close> in the \<^verbatim>\<open>unique\<close> memo.\<close>

definition uniqueStep :: "MediaItem \<Rightarrow> Unique \<Rightarrow> Unique" where
  "uniqueStep it u =
     \<lparr> uniq_tags = fold setAdd (filter (\<lambda>t. t \<noteq> sentinel) (splitTags (tags it))) (uniq_tags u),
       uniq_colors = (if isNonEmpty (colorName it)
                      then setAdd (orEmpty (colorName it)) (uniq_colors u) else uniq_colors u),
       uniq_categories = (if isNonEmpty (category it) \<and> category it \<noteq> Some sentinel
                          then setAdd (orEmpty (category it)) (uniq_categories u)
                          else uniq_categories u) \<rparr>"

text \<open>
  \<^verbatim>\<open>Array.prototype.sort\<close> is stable, and the comparator
  \<^verbatim>\<open>(a, b) => CAT_ORDER.indexOf(a) - CAT_ORDER.indexOf(b)\<close> orders by the key \<^verbatim>\<open>indexOf\<close>:
  a stable sort by that key. Without a comparator \<^verbatim>\<open>sort()\<close> orders strings by code units.
\<close>

definition unique :: "MediaItem list \<Rightarrow> Unique" where
  "unique items =
     (let u = fold uniqueStep items \<lparr> uniq_tags = [], uniq_colors = [], uniq_categories = [] \<rparr>
      in \<lparr> uniq_tags = sort (uniq_tags u),
           uniq_colors = sort (uniq_colors u),
           uniq_categories = sort_key (indexOf ZIP_CATEGORIES) (uniq_categories u) \<rparr>)"

section \<open>CSV serialization\<close>

text \<open>
  The repository has no CSV writer. The round-trip property speaks of records "serialized
  to CSV with the documented header order" and quoted by the RFC 4180 convention; the
  definitions of this section follow those words.
\<close>

text \<open>
  Modelled from the spec: the column names of the fallback manifest, in the documented
  order (the writer of the manifest is missing from the sources).
\<close>

definition HEADERS :: "jsstring list" where
  "HEADERS =
     [js ''id'', js ''rid'', js ''name'', js ''displayName'', js ''category'', js ''type'',
      js ''src'', js ''original_ext'', js ''folder'', js ''tags'', js ''colorName'',
      js ''colorHex'', js ''year'', js ''month'']"

text \<open>
  Modelled from the spec: the RFC 4180 test of the missing writer; a field that contains a
  comma, a double quote or a line break has to be quoted.
\<close>

definition needsQuoting :: "jsstring \<Rightarrow> bool" where
  "needsQuoting v \<longleftrightarrow> comma \<in> set v \<or> dquote \<in> set v \<or> LF \<in> set v \<or> CR \<in> set v"

text \<open>
  Modelled from the spec: the RFC 4180 escape of the missing writer; a double quote inside
  a quoted field is written twice.
\<close>

definition escapeQuotes :: "jsstring \<Rightarrow> jsstring" where
  "escapeQuotes v = concat (map (\<lambda>c. if c = dquote then [dquote, dquote] else [c]) v)"

text \<open>
  Modelled from the spec: one field as the missing writer emits it, enclosed in double
  quotes when it needs quoting and bare otherwise.
\<close>

definition csvField :: "jsstring \<Rightarrow> jsstring" where
  "csvField v = (if needsQuoting v then dquote # escapeQuotes v @ [dquote] else v)"

text \<open>
  Modelled from the spec: one line of the missing writer; a record is the list of the
  string forms of its values in header order, joined by commas and ended by the line break
  \<open>eol\<close>.
\<close>

definition csvLine :: "jsstring \<Rightarrow> jsstring list \<Rightarrow> jsstring" where
  "csvLine eol vs = join comma (map csvField vs) @ eol"

text \<open>
  Modelled from the spec: the text of the missing writer, the header line followed by one
  line per record.
\<close>

definition toCSV :: "jsstring \<Rightarrow> jsstring list list \<Rightarrow> jsstring" where
  "toCSV eol records = concat (map (csvLine eol) (HEADERS # records))"

section \<open>Example data\<close>

text \<open>Concrete inputs on which the theorems below are instantiated.\<close>

definition baseItem :: MediaItem where
  "baseItem =
     \<lparr> id' = Num 1, rid = None, name = js ''photo.jpg'', displayName = None, category = None,
       type' = Image, src = js ''/media/a.jpg'', original_ext = None, folder = None, tags = None,
       colorName = None, colorHex = None, year = None, month = None \<rparr>"

text \<open>A CSV text with one data row: an empty \<^verbatim>\<open>id\<close> cell and a padded \<^verbatim>\<open>type\<close> cell.\<close>

definition csvExample :: jsstring where
  "csvExample = js ''id,src,type\<newline>,a.jpg, video \<newline>''"

text \<open>An item that carries the placeholder category.\<close>

definition sentinelItem :: MediaItem where
  "sentinelItem = baseItem\<lparr>category := Some sentinel\<rparr>"

text \<open>An item with a year, no month, and a dated path.\<close>

definition yearOnlyItem :: MediaItem where
  "yearOnlyItem = baseItem\<lparr>year := Some (js ''2020''), src := js ''/media/2021/05/a.jpg''\<rparr>"

text \<open>An item whose name is only a file extension.\<close>

definition extOnlyItem :: MediaItem where
  "extOnlyItem = baseItem\<lparr>name := js ''.jpg''\<rparr>"

text \<open>An item with a category and a padded colour name.\<close>

definition colouredItem :: MediaItem where
  "colouredItem = baseItem\<lparr>category := Some catBasins, colorName := Some (js '' red '')\<rparr>"

text \<open>Two categories of the reference list, out of order, and one that is not in the list.\<close>

definition mixedCategoryItems :: "MediaItem list" where
  "mixedCategoryItems =
     [baseItem\<lparr>category := Some catStairsTables\<rparr>, baseItem\<lparr>category := Some catBasins\<rparr>,
      baseItem\<lparr>category := Some (js ''foo'')\<rparr>]"

text \<open>
  Two folders: the label of marble and ceramic followed by \<^verbatim>\<open>/sub\<close>, and the same with the
  Latin letter \<^verbatim>\<open>r\<close> in place of the first Arabic letter.
\<close>

definition marbleFolder :: jsstring where
  "marbleFolder = catMarbleCeramic @ js ''/sub''"

definition claimFolder :: jsstring where
  "claimFolder = 0x72 # tl catMarbleCeramic @ js ''/sub''"

definition marbleFolderItem :: MediaItem where
  "marbleFolderItem = baseItem\<lparr>folder := Some marbleFolder\<rparr>"

definition claimFolderItem :: MediaItem where
  "claimFolderItem = baseItem\<lparr>folder := Some claimFolder\<rparr>"

text \<open>An item whose path has a space, which \<^verbatim>\<open>encodeURIComponent\<close> escapes.\<close>

definition spaceItem :: MediaItem where
  "spaceItem = baseItem\<lparr>src := js ''/media/a b.jpg''\<rparr>"

text \<open>A record in header order whose \<^verbatim>\<open>id\<close> value has a leading space.\<close>

definition paddedRecord :: "jsstring list" where
  "paddedRecord = [js '' 1'', [], js ''a.jpg'', [], [], js ''image'', js ''/media/a.jpg'', [], [], [],
                   [], [], [], []]"

section \<open>Basic facts about strings\<close>

lemma trim_all_whitespace:
  assumes "list_all isWhiteSpace q"
  shows "trim q = []"
proof -
  from assms have d: "dropWhile isWhiteSpace q = []"
    by (simp add: list_all_iff)
  show ?thesis
    unfolding trim_def d by simp
qed

text \<open>Unfolding sets for evaluating the model on concrete inputs.\<close>

lemmas str_eval = js_def trim_def isWhiteSpace_def truthy_def orEmpty_def isNonEmpty_def
  startsWith_def endsWith_def slash_def space_def percent_def comma_def

lemmas item_eval = baseItem_def normalizeItems_def normalizeItem_def normalizeUrlPath_def hasProto_def
  startsWithCI_def eqCI_def toUpperASCII_def isUnreserved_def keepItem_def shouldSkipPath_def
  asciiLower_def deriveCategoryFromPath_def safeDecode_def buildDisplayName_def cleanFileName_def
  stripWhatsappPrefix_def atStampLen_def stripMediaExt_def mediaExtensions_def endsWithCI_def
  isSep_def isDash_def isDigit_def missingOrUnknown_def ZIP_CATEGORIES_def sentinel_def
  catBasins_def catMarbleCeramic_def catStairsTables_def catWoodBackdrops_def

section \<open>Filter engine: empty selection\<close>

text \<open>
  C9. With a query that is empty or only white space, no selected tag and no selected
  category, \<^verbatim>\<open>filtered\<close> is the item list itself: every item, in the same order.
\<close>

theorem filtered_empty_selection:
  assumes "list_all isWhiteSpace q"
  shows "filtered other items q [] [] = items"
proof -
  have "trim q = []"
    using assms by (rule trim_all_whitespace)
  then show ?thesis
    by (simp add: filtered_def itemMatches_def)
qed

theorem filtered_empty_selection_witness:
  "list_all isWhiteSpace (js ''  '') \<and>
   filtered (\<lambda>t. t) [baseItem, baseItem\<lparr>name := js ''b.png''\<rparr>] (js ''  '') [] []
     = [baseItem, baseItem\<lparr>name := js ''b.png''\<rparr>]"
proof -
  have w: "list_all isWhiteSpace (js ''  '')"
    by (simp add: js_def isWhiteSpace_def)
  from filtered_empty_selection[OF w] w show ?thesis by blast
qed

section \<open>CSV fallback: row objects and items\<close>

lemma assignCells_snoc:
  "assignCells (hs @ [h]) i r obj = (assignCells hs i r obj)(h \<mapsto> trim (cell r (i + length hs)))"
  by (induction hs arbitrary: i obj) simp_all

lemma assignCells_Some_iff:
  "assignCells hs i r obj k = Some v \<longleftrightarrow>
     (\<exists>j<length hs. hs ! j = k \<and> (\<forall>m<length hs. j < m \<longrightarrow> hs ! m \<noteq> k) \<and> v = trim (cell r (i + j)))
     \<or> (k \<notin> set hs \<and> obj k = Some v)"
proof (induction hs rule: rev_induct)
  case Nil
  then show ?case by simp
next
  case (snoc h hs)
  show ?case
  proof (cases "h = k")
    case True
    have "(\<exists>j<length (hs @ [h]). (hs @ [h]) ! j = k \<and> (\<forall>m<length (hs @ [h]). j < m \<longrightarrow> (hs @ [h]) ! m \<noteq> k) \<and> v = trim (cell r (i + j)))
       \<longleftrightarrow> v = trim (cell r (i + length hs))" (is "?L \<longleftrightarrow> ?R")
    proof
      assume ?L
      then obtain j where j: "j < length (hs @ [h])" "(\<forall>m<length (hs @ [h]). j < m \<longrightarrow> (hs @ [h]) ! m \<noteq> k)" "v = trim (cell r (i + j))"
        by blast
      have "j = length hs"
      proof (rule ccontr)
        assume "j \<noteq> length hs"
        with j(1) have "j < length hs" by simp
        with j(2) have "(hs @ [h]) ! (length hs) \<noteq> k"
          by (metis length_append_singleton lessI)
        with True show False by simp
      qed
      with j(3) show ?R by simp
    next
      assume ?R
      with True show ?L by (intro exI[of _ "length hs"]) simp
    qed
    with True show ?thesis by (auto simp: assignCells_snoc)
  next
    case False
    have "(\<exists>j<length (hs @ [h]). (hs @ [h]) ! j = k \<and> (\<forall>m<length (hs @ [h]). j < m \<longrightarrow> (hs @ [h]) ! m \<noteq> k) \<and> v = trim (cell r (i + j)))
       \<longleftrightarrow> (\<exists>j<length hs. hs ! j = k \<and> (\<forall>m<length hs. j < m \<longrightarrow> hs ! m \<noteq> k) \<and> v = trim (cell r (i + j)))"
      using False by (auto simp: nth_append less_Suc_eq)
    with False snoc show ?thesis by (simp add: assignCells_snoc)
  qed
qed

lemma csvItems_nth:
  assumes "parseCSV text = hrow # rrows" and "i < length rrows"
  shows "csvItems text ! i = rowToItem i (rowObj (map trim hrow) (rrows ! i))"
  using assms by (simp add: csvItems_def csvToObjects_def)

text \<open>
  C10. For a CSV text with header row \<open>hrow\<close> and data rows \<open>rrows\<close>, the item built from data
  row \<open>i\<close> has type \<^verbatim>\<open>video\<close> exactly when the row's trimmed cell in the (last) column headed
  \<^verbatim>\<open>type\<close> is the string \<^verbatim>\<open>video\<close>, and type \<^verbatim>\<open>image\<close> in every other case.
\<close>

theorem csv_type_field:
  assumes "parseCSV text = hrow # rrows" and "i < length rrows"
  shows "type' (csvItems text ! i) =
     (if \<exists>j<length hrow. trim (hrow ! j) = js ''type'' \<and>
            (\<forall>m<length hrow. j < m \<longrightarrow> trim (hrow ! m) \<noteq> js ''type'') \<and>
            trim (cell (rrows ! i) j) = js ''video''
      then Video else Image)"
proof -
  have "rowObj (map trim hrow) (rrows ! i) (js ''type'') = Some (js ''video'') \<longleftrightarrow>
        (\<exists>j<length hrow. trim (hrow ! j) = js ''type'' \<and>
            (\<forall>m<length hrow. j < m \<longrightarrow> trim (hrow ! m) \<noteq> js ''type'') \<and>
            trim (cell (rrows ! i) j) = js ''video'')"
    unfolding rowObj_def assignCells_Some_iff by auto
  then show ?thesis
    unfolding csvItems_nth[OF assms] by (simp add: rowToItem_def)
qed

lemmas csv_eval = parseCSV_def js_def stripBOM_def dquote_def comma_def LF_def CR_def keepRow_def

theorem csv_type_field_witness:
  "parseCSV csvExample = [js ''id'', js ''src'', js ''type''] # [[[], js ''a.jpg'', js '' video '']]
   \<and> (0::nat) < length [[[], js ''a.jpg'', js '' video '']]
   \<and> type' (csvItems csvExample ! 0) = Video"
proof -
  have p: "parseCSV csvExample = [js ''id'', js ''src'', js ''type''] # [[[], js ''a.jpg'', js '' video '']]"
    by (simp add: csvExample_def csv_eval)
  have l: "(0::nat) < length [[[], js ''a.jpg'', js '' video '']]" by simp
  have e: "\<exists>j<length [js ''id'', js ''src'', js ''type'']. trim ([js ''id'', js ''src'', js ''type''] ! j) = js ''type'' \<and>
            (\<forall>m<length [js ''id'', js ''src'', js ''type'']. j < m \<longrightarrow> trim ([js ''id'', js ''src'', js ''type''] ! m) \<noteq> js ''type'') \<and>
            trim (cell ([[[], js ''a.jpg'', js '' video '']] ! 0) j) = js ''video''"
    by (rule exI[of _ 2]) (simp add: js_def trim_def isWhiteSpace_def cell_def)
  from csv_type_field[OF p l] e have "type' (csvItems csvExample ! 0) = Video"
    by (simp only: if_True)
  with p l show ?thesis by blast
qed

text \<open>
  C5. With no JSON data and the CSV text \<^verbatim>\<open>id,src,type\<close> / \<^verbatim>\<open>,a.jpg, video\<close>, whose only data
  row has an empty \<^verbatim>\<open>id\<close> cell, \<^verbatim>\<open>load\<close> yields one item and its id is \<open>0\<close>, not the row
  position \<open>1\<close>: \<^verbatim>\<open>csvToObjects\<close> stores the empty string for the cell, \<^verbatim>\<open>??\<close> does not fall
  through, and the id is \<^verbatim>\<open>Number("")\<close>.
\<close>

theorem csv_empty_id_is_zero:
  "map_option (map id') (load asciiLower None (Some csvExample)) = Some [Num 0]"
  by (simp add: load_def csvItems_def csvToObjects_def rowObj_def rowToItem_def cell_def
      orUndefined_def Number_of_string_def csvExample_def csv_eval item_eval str_eval)

section \<open>Normalizer: categories\<close>

lemma those_map_Some:
  "those (map f xs) = Some ys \<Longrightarrow> list_all2 (\<lambda>x y. f x = Some y) xs ys"
  by (induction xs arbitrary: ys) (auto split: option.splits)

lemma find_Some_mem: "find P xs = Some x \<Longrightarrow> x \<in> set xs"
  by (induction xs) (auto split: if_splits)

lemma ZIP_not_sentinel: "c \<in> set ZIP_CATEGORIES \<Longrightarrow> c \<noteq> sentinel"
  by (auto simp: ZIP_CATEGORIES_def sentinel_def catBasins_def catMarbleCeramic_def
      catStairsTables_def catWoodBackdrops_def)

lemma deriveCategory_not_sentinel: "deriveCategoryFromPath it \<noteq> Some sentinel"
proof (cases "truthy (category it) \<and> category it \<noteq> Some sentinel")
  case True
  then show ?thesis by (simp add: deriveCategoryFromPath_def)
next
  case False
  show ?thesis
  proof
    assume "deriveCategoryFromPath it = Some sentinel"
    with False have "find (\<lambda>cat. includesStr (safeDecode (orEmpty (folder it) @ space # src it)) cat)
                       ZIP_CATEGORIES = Some sentinel"
      by (simp add: deriveCategoryFromPath_def Let_def split: if_splits)
    then have "sentinel \<in> set ZIP_CATEGORIES"
      by (rule find_Some_mem)
    then show False using ZIP_not_sentinel by blast
  qed
qed

lemma normalizeItem_category:
  "normalizeItem it = Some it' \<Longrightarrow> category it' = deriveCategoryFromPath (it\<lparr>src := src it'\<rparr>)"
  by (auto simp: normalizeItem_def Let_def split: option.splits)

text \<open>
  C7. Whenever \<^verbatim>\<open>normalizeItems\<close> returns, no item of its output has the placeholder as its
  category: the category is absent or a different value.
\<close>

theorem normalizeItems_no_sentinel:
  assumes "normalizeItems toLowerCase arr = Some out"
  shows "\<forall>m\<in>set out. category m \<noteq> Some sentinel"
proof
  fix m assume m: "m \<in> set out"
  from assms obtain ys where ys: "those (map normalizeItem arr) = Some ys"
    and out: "out = filter (keepItem toLowerCase) ys"
    by (auto simp: normalizeItems_def)
  from m out have "m \<in> set ys" by simp
  with those_map_Some[OF ys] obtain it where "normalizeItem it = Some m"
    by (auto simp: list_all2_conv_all_nth in_set_conv_nth)
  then show "category m \<noteq> Some sentinel"
    using deriveCategory_not_sentinel by (simp add: normalizeItem_category)
qed

theorem normalizeItems_no_sentinel_witness:
  "normalizeItems asciiLower [sentinelItem] = Some [baseItem\<lparr>displayName := Some (js ''photo'')\<rparr>]
   \<and> category (baseItem\<lparr>displayName := Some (js ''photo'')\<rparr>) \<noteq> Some sentinel"
proof -
  have n: "normalizeItems asciiLower [sentinelItem]
     = Some [baseItem\<lparr>displayName := Some (js ''photo'')\<rparr>]"
    by (simp add: sentinelItem_def item_eval str_eval)
  from normalizeItems_no_sentinel[OF n] n show ?thesis by simp
qed


section \<open>Normalizer: year and month\<close>

lemma window9:
  assumes "length w = 9"
  obtains w0 w1 w2 w3 w4 w5 w6 w7 w8 where "w = [w0, w1, w2, w3, w4, w5, w6, w7, w8]"
proof -
  from assms obtain w0 r0 where "w = w0 # r0" "length r0 = 8" by (cases w) auto
  moreover then obtain w1 r1 where "r0 = w1 # r1" "length r1 = 7" by (cases r0) auto
  moreover then obtain w2 r2 where "r1 = w2 # r2" "length r2 = 6" by (cases r1) auto
  moreover then obtain w3 r3 where "r2 = w3 # r3" "length r3 = 5" by (cases r2) auto
  moreover then obtain w4 r4 where "r3 = w4 # r4" "length r4 = 4" by (cases r3) auto
  moreover then obtain w5 r5 where "r4 = w5 # r5" "length r5 = 3" by (cases r4) auto
  moreover then obtain w6 r6 where "r5 = w6 # r6" "length r6 = 2" by (cases r5) auto
  moreover then obtain w7 r7 where "r6 = w7 # r7" "length r7 = 1" by (cases r6) auto
  moreover then obtain w8 where "r7 = [w8]" by (cases r7) auto
  ultimately show ?thesis using that by simp
qed

lemma matchYearMonth_Cons:
  "matchYearMonth (c # cs) =
     (if length (take 9 (c # cs)) = 9 \<and> take 9 (c # cs) ! 0 = slash \<and> take 9 (c # cs) ! 1 = 0x32 \<and>
         take 9 (c # cs) ! 2 = 0x30 \<and> isDigit (take 9 (c # cs) ! 3) \<and>
         isDigit (take 9 (c # cs) ! 4) \<and> take 9 (c # cs) ! 5 = slash \<and>
         isDigit (take 9 (c # cs) ! 6) \<and> isDigit (take 9 (c # cs) ! 7) \<and>
         take 9 (c # cs) ! 8 = slash
      then Some (take 4 (drop 1 (take 9 (c # cs))), take 2 (drop 6 (take 9 (c # cs))))
      else matchYearMonth cs)"
  by (simp only: matchYearMonth.simps Let_def)

lemma matchYearMonth_Some:
  "matchYearMonth s = Some (y, mo) \<Longrightarrow>
   \<exists>pre post. s = pre @ slash # y @ slash # mo @ slash # post \<and> isYear20 y \<and> isMonth2 mo"
proof (induction s)
  case Nil
  then show ?case by simp
next
  case (Cons c cs)
  let ?w = "take 9 (c # cs)"
  define P where "P \<longleftrightarrow> length ?w = 9 \<and> ?w ! 0 = slash \<and> ?w ! 1 = 0x32 \<and> ?w ! 2 = 0x30 \<and>
         isDigit (?w ! 3) \<and> isDigit (?w ! 4) \<and> ?w ! 5 = slash \<and> isDigit (?w ! 6) \<and>
         isDigit (?w ! 7) \<and> ?w ! 8 = slash"
  have eq: "matchYearMonth (c # cs) =
              (if P then Some (take 4 (drop 1 ?w), take 2 (drop 6 ?w)) else matchYearMonth cs)"
    unfolding P_def by (rule matchYearMonth_Cons)
  show ?case
  proof (cases P)
    case True
    then have l: "length ?w = 9" by (simp add: P_def)
    then obtain w0 w1 w2 w3 w4 w5 w6 w7 w8 where w: "?w = [w0, w1, w2, w3, w4, w5, w6, w7, w8]"
      using window9[of ?w] by blast
    from True eq Cons.prems have ym: "y = take 4 (drop 1 ?w)" "mo = take 2 (drop 6 ?w)"
      by simp_all
    from True have c: "w0 = slash" "w1 = 0x32" "w2 = 0x30" "isDigit w3" "isDigit w4" "w5 = slash"
      "isDigit w6" "isDigit w7" "w8 = slash"
      unfolding P_def w by simp_all
    have "c # cs = ?w @ drop 9 (c # cs)" by simp
    then have "c # cs = [] @ slash # y @ slash # mo @ slash # drop 9 (c # cs)"
      unfolding ym w c by simp
    moreover have "isYear20 y \<and> isMonth2 mo"
      unfolding ym w using c by (simp add: isYear20_def isMonth2_def js_def isDigit_def)
    ultimately show ?thesis by blast
  next
    case False
    with eq Cons.prems have "matchYearMonth cs = Some (y, mo)"
      by simp
    from Cons.IH[OF this] obtain pre post
      where "cs = pre @ slash # y @ slash # mo @ slash # post" "isYear20 y \<and> isMonth2 mo"
      by blast
    then have "c # cs = (c # pre) @ slash # y @ slash # mo @ slash # post \<and> isYear20 y \<and> isMonth2 mo"
      by simp
    then show ?thesis by blast
  qed
qed

lemma matchYearMonth_tail: "matchYearMonth rest \<noteq> None \<Longrightarrow> matchYearMonth (p # rest) \<noteq> None"
  by (simp only: matchYearMonth_Cons split: if_splits) simp

lemma matchYearMonth_segment:
  assumes "isYear20 y" and "isMonth2 mo"
  shows "matchYearMonth (pre @ slash # y @ slash # mo @ slash # post) \<noteq> None"
proof (induction pre)
  case Nil
  from assms(1) obtain d1 d2 where y: "y = [0x32, 0x30, d1, d2]" "isDigit d1" "isDigit d2"
    by (cases y; cases "tl y"; cases "tl (tl y)"; cases "tl (tl (tl y))")
       (auto simp: isYear20_def js_def)
  from assms(2) obtain d3 d4 where mo: "mo = [d3, d4]" "isDigit d3" "isDigit d4"
    by (cases mo; cases "tl mo") (auto simp: isMonth2_def)
  from y mo show ?case by (simp add: Let_def)
next
  case (Cons p pre)
  show ?case
    unfolding append_Cons by (rule matchYearMonth_tail[OF Cons.IH])
qed

lemma matchYearMonth_None_iff: "matchYearMonth s = None \<longleftrightarrow> \<not> hasDateSegment s"
proof
  assume "matchYearMonth s = None"
  then show "\<not> hasDateSegment s"
    unfolding hasDateSegment_def using matchYearMonth_segment by metis
next
  assume n: "\<not> hasDateSegment s"
  show "matchYearMonth s = None"
  proof (rule ccontr)
    assume "matchYearMonth s \<noteq> None"
    then obtain y mo where "matchYearMonth s = Some (y, mo)" by auto
    from matchYearMonth_Some[OF this] n show False
      unfolding hasDateSegment_def by blast
  qed
qed


text \<open>
  C3. Year and month are inferred independently. When the encoded \<^verbatim>\<open>src\<close> has a
  \<^verbatim>\<open>/20NN/NN/\<close> segment, the match is such a segment of it, the year is taken from the match
  if and only if the given year is missing, empty or starts with \<^verbatim>\<open>unknown\<close>, and the month
  is taken from it if and only if the given month is missing, empty or starts with
  \<^verbatim>\<open>unknown\<close>; without such a segment both are left as given.
\<close>

theorem normalizeItem_year_month:
  assumes "normalizeItem it = Some it'"
  shows "(hasDateSegment (src it') \<longrightarrow>
            (\<exists>pre y mo post.
               src it' = pre @ slash # y @ slash # mo @ slash # post \<and> isYear20 y \<and> isMonth2 mo \<and>
               matchYearMonth (src it') = Some (y, mo) \<and>
               year it' = (if missingOrUnknown (year it) then Some y else year it) \<and>
               month it' = (if missingOrUnknown (month it) then Some mo else month it))) \<and>
         (\<not> hasDateSegment (src it') \<longrightarrow> year it' = year it \<and> month it' = month it)"
proof (cases "matchYearMonth (src it')")
  case None
  with assms have "year it' = year it \<and> month it' = month it"
    by (auto simp: normalizeItem_def Let_def split: option.splits)
  with None show ?thesis by (simp add: matchYearMonth_None_iff)
next
  case (Some ym)
  obtain y mo where ym: "ym = (y, mo)" by (cases ym)
  from Some ym matchYearMonth_Some[of "src it'" y mo] obtain pre post
    where "src it' = pre @ slash # y @ slash # mo @ slash # post" "isYear20 y" "isMonth2 mo"
    by auto
  moreover from assms Some ym
  have "year it' = (if missingOrUnknown (year it) then Some y else year it) \<and>
        month it' = (if missingOrUnknown (month it) then Some mo else month it)"
    by (auto simp: normalizeItem_def Let_def split: option.splits)
  ultimately have "\<exists>pre y mo post.
               src it' = pre @ slash # y @ slash # mo @ slash # post \<and> isYear20 y \<and> isMonth2 mo \<and>
               matchYearMonth (src it') = Some (y, mo) \<and>
               year it' = (if missingOrUnknown (year it) then Some y else year it) \<and>
               month it' = (if missingOrUnknown (month it) then Some mo else month it)"
    using Some ym by blast
  moreover from Some have "hasDateSegment (src it')"
    using matchYearMonth_None_iff[of "src it'"] by simp
  ultimately show ?thesis by blast
qed

lemma normalize_yearOnlyItem:
  "normalizeItem yearOnlyItem =
     Some (yearOnlyItem\<lparr>month := Some (js ''05''), displayName := Some (js ''photo'')\<rparr>)"
  by (simp add: yearOnlyItem_def item_eval str_eval)

theorem normalizeItem_year_month_witness:
  "normalizeItem yearOnlyItem =
     Some (yearOnlyItem\<lparr>month := Some (js ''05''), displayName := Some (js ''photo'')\<rparr>) \<and>
   hasDateSegment (js ''/media/2021/05/a.jpg'') \<and>
   matchYearMonth (js ''/media/2021/05/a.jpg'') = Some (js ''2021'', js ''05'') \<and>
   \<not> missingOrUnknown (year yearOnlyItem) \<and> missingOrUnknown (month yearOnlyItem) \<and>
   year (yearOnlyItem\<lparr>month := Some (js ''05''), displayName := Some (js ''photo'')\<rparr>) = Some (js ''2020'') \<and>
   month (yearOnlyItem\<lparr>month := Some (js ''05''), displayName := Some (js ''photo'')\<rparr>) = Some (js ''05'')"
proof -
  have n: "normalizeItem yearOnlyItem =
     Some (yearOnlyItem\<lparr>month := Some (js ''05''), displayName := Some (js ''photo'')\<rparr>)"
    by (rule normalize_yearOnlyItem)
  have m: "matchYearMonth (js ''/media/2021/05/a.jpg'') = Some (js ''2021'', js ''05'')"
    by (simp add: js_def slash_def isDigit_def)
  then have h: "hasDateSegment (js ''/media/2021/05/a.jpg'')"
    using matchYearMonth_None_iff[of "js ''/media/2021/05/a.jpg''"] by simp
  have s: "src (yearOnlyItem\<lparr>month := Some (js ''05''), displayName := Some (js ''photo'')\<rparr>)
             = js ''/media/2021/05/a.jpg''"
    by (simp add: yearOnlyItem_def)
  have g: "\<not> missingOrUnknown (year yearOnlyItem) \<and> missingOrUnknown (month yearOnlyItem)"
    by (simp add: yearOnlyItem_def baseItem_def missingOrUnknown_def str_eval)
  from normalizeItem_year_month[OF n] m s g h n show ?thesis
    by (auto simp: yearOnlyItem_def)
qed

text \<open>
  C3, as stated, fails: the item has the year \<^verbatim>\<open>2020\<close> and no month, and normalization sets
  its month to \<^verbatim>\<open>05\<close> from the path.
\<close>

theorem year_present_month_inferred:
  "year yearOnlyItem = Some (js ''2020'') \<and> \<not> startsWith (js ''2020'') (js ''unknown'') \<and>
   month yearOnlyItem = None \<and>
   map_option month (normalizeItem yearOnlyItem) = Some (Some (js ''05''))"
  by (simp add: normalize_yearOnlyItem) (simp add: yearOnlyItem_def baseItem_def str_eval)

section \<open>Display names\<close>

text \<open>
  C8. The display name is the category, a space and the trimmed colour name when both are
  non-empty; else the category; else the trimmed colour name; else the cleaned name. It is
  non-empty exactly when the category, the trimmed colour name or the cleaned name is.
\<close>

theorem buildDisplayName_priority:
  "(truthy (category it) \<and> truthy (map_option trim (colorName it)) \<longrightarrow>
      buildDisplayName it = orEmpty (category it) @ space # trim (orEmpty (colorName it))) \<and>
   (truthy (category it) \<and> \<not> truthy (map_option trim (colorName it)) \<longrightarrow>
      buildDisplayName it = orEmpty (category it)) \<and>
   (\<not> truthy (category it) \<and> truthy (map_option trim (colorName it)) \<longrightarrow>
      buildDisplayName it = trim (orEmpty (colorName it))) \<and>
   (\<not> truthy (category it) \<and> \<not> truthy (map_option trim (colorName it)) \<longrightarrow>
      buildDisplayName it = cleanFileName (name it)) \<and>
   (buildDisplayName it \<noteq> [] \<longleftrightarrow>
      truthy (category it) \<or> truthy (map_option trim (colorName it)) \<or>
      cleanFileName (name it) \<noteq> [])"
  by (auto simp: buildDisplayName_def Let_def truthy_def orEmpty_def split: option.splits)

theorem buildDisplayName_priority_witness:
  "truthy (category colouredItem) \<and> truthy (map_option trim (colorName colouredItem)) \<and>
   buildDisplayName colouredItem = catBasins @ space # js ''red''"
proof -
  have t: "truthy (category colouredItem) \<and> truthy (map_option trim (colorName colouredItem))"
    by (simp add: colouredItem_def baseItem_def catBasins_def str_eval)
  have "orEmpty (category colouredItem) @ space # trim (orEmpty (colorName colouredItem))
          = catBasins @ space # js ''red''"
    by (simp add: colouredItem_def baseItem_def str_eval)
  with buildDisplayName_priority[of colouredItem] t show ?thesis by simp
qed

text \<open>
  C8, as stated, fails: the item has the non-empty name \<^verbatim>\<open>.jpg\<close>, no category and no colour,
  and its display name is empty.
\<close>

theorem displayName_empty_for_named_item:
  "name extOnlyItem = js ''.jpg'' \<and> js ''.jpg'' \<noteq> [] \<and> buildDisplayName extOnlyItem = []"
  by (simp add: extOnlyItem_def item_eval str_eval)

section \<open>Facets: category order\<close>

lemma set_setAdd: "set (setAdd x s) = insert x (set s)"
  by (auto simp: setAdd_def)

lemma distinct_setAdd: "distinct s \<Longrightarrow> distinct (setAdd x s)"
  by (simp add: setAdd_def)

lemma fold_uniqueStep_categories:
  "set (uniq_categories (fold uniqueStep items u))
     = set (uniq_categories u) \<union> {orEmpty (category it) | it. it \<in> set items \<and> isNonEmpty (category it) \<and> category it \<noteq> Some sentinel}"
  by (induction items arbitrary: u) (auto simp: uniqueStep_def set_setAdd)

lemma fold_uniqueStep_distinct:
  "distinct (uniq_categories u) \<Longrightarrow> distinct (uniq_categories (fold uniqueStep items u))"
  by (induction items arbitrary: u) (simp_all add: uniqueStep_def distinct_setAdd)

lemma unique_categories_set:
  "set (uniq_categories (unique items))
     = {orEmpty (category it) | it. it \<in> set items \<and> isNonEmpty (category it) \<and> category it \<noteq> Some sentinel}"
  by (simp add: unique_def Let_def fold_uniqueStep_categories)


lemma unique_categories_distinct: "distinct (uniq_categories (unique items))"
  by (simp add: unique_def Let_def fold_uniqueStep_distinct)

lemma indexOf_ge: "- 1 \<le> indexOf bs a"
  by (induction bs) (auto simp: Let_def)

lemma indexOf_mem: "a \<in> set bs \<longleftrightarrow> 0 \<le> indexOf bs a"
  using indexOf_ge[of _ a] by (induction bs) (auto simp: Let_def)

lemma indexOf_nth: "0 \<le> indexOf bs a \<Longrightarrow> bs ! nat (indexOf bs a) = a"
  by (induction bs) (auto simp: Let_def nat_add_distrib split: if_splits)

text \<open>
  C4. The category facet list holds, once each, the categories of the items that are
  non-empty and not the placeholder, in non-decreasing order of \<^verbatim>\<open>CAT_ORDER.indexOf\<close>, which
  is the reference position of a listed category and \<open>-1\<close> for any other: listed categories
  follow the reference order, and every category that is not in the reference list comes
  before all listed ones.
\<close>

theorem unique_categories_order:
  "(\<forall>i j. i < j \<and> j < length (uniq_categories (unique items)) \<longrightarrow>
      indexOf ZIP_CATEGORIES (uniq_categories (unique items) ! i)
        \<le> indexOf ZIP_CATEGORIES (uniq_categories (unique items) ! j)) \<and>
   (\<forall>c. c \<in> set ZIP_CATEGORIES \<longrightarrow>
      0 \<le> indexOf ZIP_CATEGORIES c \<and> ZIP_CATEGORIES ! nat (indexOf ZIP_CATEGORIES c) = c) \<and>
   (\<forall>i j. i < length (uniq_categories (unique items)) \<and> j < length (uniq_categories (unique items)) \<and>
      uniq_categories (unique items) ! i \<notin> set ZIP_CATEGORIES \<and>
      uniq_categories (unique items) ! j \<in> set ZIP_CATEGORIES \<longrightarrow> i < j) \<and>
   distinct (uniq_categories (unique items)) \<and>
   set (uniq_categories (unique items))
     = {orEmpty (category it) | it.
          it \<in> set items \<and> isNonEmpty (category it) \<and> category it \<noteq> Some sentinel}"
proof -
  define cats where "cats = uniq_categories (unique items)"
  have "sorted (map (indexOf ZIP_CATEGORIES) cats)"
    by (simp add: cats_def unique_def Let_def)
  then have mono: "indexOf ZIP_CATEGORIES (cats ! i) \<le> indexOf ZIP_CATEGORIES (cats ! j)"
    if "i < j" "j < length cats" for i j
    using that by (simp add: sorted_iff_nth_mono)
  have before: "i < j"
    if "i < length cats" "j < length cats" "cats ! i \<notin> set ZIP_CATEGORIES"
       "cats ! j \<in> set ZIP_CATEGORIES" for i j
  proof (rule ccontr)
    assume "\<not> i < j"
    moreover from that have "i \<noteq> j" by auto
    ultimately have "j < i" by simp
    from mono[OF this that(1)] that(3,4) show False
      by (simp add: indexOf_mem)
  qed
  have pos: "0 \<le> indexOf ZIP_CATEGORIES c \<and> ZIP_CATEGORIES ! nat (indexOf ZIP_CATEGORIES c) = c"
    if "c \<in> set ZIP_CATEGORIES" for c
    using that by (simp add: indexOf_mem indexOf_nth)
  from mono before pos unique_categories_distinct[of items] unique_categories_set[of items]
  show ?thesis
    unfolding cats_def by blast
qed

lemma unique_mixed:
  "uniq_categories (unique mixedCategoryItems) = [js ''foo'', catBasins, catStairsTables]"
  by (simp add: mixedCategoryItems_def unique_def uniqueStep_def setAdd_def splitTags_def
      baseItem_def ZIP_CATEGORIES_def sentinel_def
      catBasins_def catMarbleCeramic_def catStairsTables_def catWoodBackdrops_def str_eval)

text \<open>
  C4, as stated, fails: the category \<^verbatim>\<open>foo\<close> is not in the reference list and is first in the
  facet list, before two listed categories.
\<close>

theorem unlisted_category_sorts_first:
  "uniq_categories (unique mixedCategoryItems) = [js ''foo'', catBasins, catStairsTables] \<and>
   js ''foo'' \<notin> set ZIP_CATEGORIES \<and> catBasins \<in> set ZIP_CATEGORIES"
  by (simp add: unique_mixed)
     (simp add: ZIP_CATEGORIES_def catBasins_def catMarbleCeramic_def catStairsTables_def
        catWoodBackdrops_def js_def)

theorem unique_categories_order_witness:
  "uniq_categories (unique mixedCategoryItems) ! 0 \<notin> set ZIP_CATEGORIES \<and>
   uniq_categories (unique mixedCategoryItems) ! 2 \<in> set ZIP_CATEGORIES \<and>
   indexOf ZIP_CATEGORIES (uniq_categories (unique mixedCategoryItems) ! 0)
     \<le> indexOf ZIP_CATEGORIES (uniq_categories (unique mixedCategoryItems) ! 2) \<and>
   (0::nat) < 2"
proof -
  have l: "(0::nat) < 2 \<and> 2 < length (uniq_categories (unique mixedCategoryItems))"
    by (simp add: unique_mixed)
  have m: "uniq_categories (unique mixedCategoryItems) ! 0 \<notin> set ZIP_CATEGORIES \<and>
   uniq_categories (unique mixedCategoryItems) ! 2 \<in> set ZIP_CATEGORIES"
    by (simp add: unique_mixed)
     (simp add: ZIP_CATEGORIES_def catBasins_def catMarbleCeramic_def catStairsTables_def
        catWoodBackdrops_def js_def)
  from unique_categories_order[of mixedCategoryItems] l m show ?thesis by blast
qed


section \<open>Normalizer: category inferred from the folder\<close>

lemma decode_no_percent_prefix:
  "percent \<notin> set a \<Longrightarrow> decodeURIComponent (a @ b) = map_option ((@) a) (decodeURIComponent b)"
proof (induction a)
  case Nil
  show ?case by (cases "decodeURIComponent b") simp_all
next
  case (Cons c a)
  then have "c \<noteq> percent"
    and "decodeURIComponent (a @ b) = map_option ((@) a) (decodeURIComponent b)"
    by auto
  then show ?case by (cases "decodeURIComponent b") simp_all
qed

lemma safeDecode_no_percent_prefix:
  "percent \<notin> set a \<Longrightarrow> safeDecode (a @ b) = a @ safeDecode b"
  by (simp add: safeDecode_def decode_no_percent_prefix split: option.splits)

lemma startsWith_includesStr: "startsWith s t \<Longrightarrow> includesStr s t"
  by (cases s) (auto simp: startsWith_def)

lemma includesStr_prefix: "includesStr (t @ r) t"
  by (rule startsWith_includesStr) (simp add: startsWith_def)

lemma marbleFolder_hay:
  "safeDecode (marbleFolder @ space # e) = marbleFolder @ space # safeDecode e"
proof -
  have "percent \<notin> set (marbleFolder @ [space])"
    by (simp add: marbleFolder_def catMarbleCeramic_def js_def percent_def space_def)
  from safeDecode_no_percent_prefix[OF this, of e] show ?thesis by simp
qed

lemma marbleFolder_no_basins:
  "includesStr (marbleFolder @ space # y) catBasins \<longleftrightarrow> includesStr y catBasins"
  by (simp add: marbleFolder_def catMarbleCeramic_def catBasins_def js_def space_def startsWith_def)

text \<open>
  C6. For an item whose folder is the label of marble and ceramic followed by \<^verbatim>\<open>/sub\<close>, with
  no explicit category (absent, empty or the placeholder) and a \<^verbatim>\<open>src\<close> whose decoded form
  contains none of the four labels, normalization assigns the category of marble and ceramic.
\<close>

theorem folder_category_inferred:
  assumes "normalizeItem it = Some it'"
    and "folder it = Some marbleFolder"
    and "\<not> truthy (category it) \<or> category it = Some sentinel"
    and "list_all (\<lambda>cat. \<not> includesStr (safeDecode (src it')) cat) ZIP_CATEGORIES"
  shows "category it' = Some catMarbleCeramic"
proof -
  define hay where "hay = safeDecode (marbleFolder @ space # src it')"
  have c: "category it' = find (\<lambda>cat. includesStr hay cat) ZIP_CATEGORIES"
    using assms(1,2,3)
    by (auto simp: normalizeItem_def Let_def deriveCategoryFromPath_def hay_def orEmpty_def
        split: option.splits)
  have h: "hay = marbleFolder @ space # safeDecode (src it')"
    by (simp add: hay_def marbleFolder_hay)
  from assms(4) have "\<not> includesStr (safeDecode (src it')) catBasins"
    by (simp add: ZIP_CATEGORIES_def)
  then have nb: "\<not> includesStr hay catBasins"
    by (simp add: h marbleFolder_no_basins)
  have "includesStr ((catMarbleCeramic @ js ''/sub'' @ space # safeDecode (src it'))) catMarbleCeramic"
    by (rule includesStr_prefix[of catMarbleCeramic])
  then have m: "includesStr hay catMarbleCeramic"
    by (simp add: h marbleFolder_def)
  from c nb m show ?thesis
    by (simp add: ZIP_CATEGORIES_def)
qed

lemma normalize_marbleFolderItem:
  "normalizeItem marbleFolderItem =
     Some (marbleFolderItem\<lparr>category := Some catMarbleCeramic, displayName := Some catMarbleCeramic\<rparr>)"
  by (simp add: marbleFolderItem_def marbleFolder_def item_eval str_eval) (simp add: Let_def)

theorem folder_category_inferred_witness:
  "normalizeItem marbleFolderItem =
     Some (marbleFolderItem\<lparr>category := Some catMarbleCeramic, displayName := Some catMarbleCeramic\<rparr>) \<and>
   folder marbleFolderItem = Some marbleFolder \<and>
   \<not> truthy (category marbleFolderItem) \<and>
   list_all (\<lambda>cat. \<not> includesStr (safeDecode (js ''/media/a.jpg'')) cat) ZIP_CATEGORIES \<and>
   category (marbleFolderItem\<lparr>category := Some catMarbleCeramic, displayName := Some catMarbleCeramic\<rparr>)
     = Some catMarbleCeramic"
proof -
  have n: "normalizeItem marbleFolderItem =
     Some (marbleFolderItem\<lparr>category := Some catMarbleCeramic, displayName := Some catMarbleCeramic\<rparr>)"
    by (rule normalize_marbleFolderItem)
  have f: "folder marbleFolderItem = Some marbleFolder"
    by (simp add: marbleFolderItem_def)
  have t: "\<not> truthy (category marbleFolderItem)"
    by (simp add: marbleFolderItem_def baseItem_def truthy_def)
  have s: "src (marbleFolderItem\<lparr>category := Some catMarbleCeramic, displayName := Some catMarbleCeramic\<rparr>)
             = js ''/media/a.jpg''"
    by (simp add: marbleFolderItem_def baseItem_def)
  have l: "list_all (\<lambda>cat. \<not> includesStr (safeDecode (js ''/media/a.jpg'')) cat) ZIP_CATEGORIES"
    by (simp add: item_eval str_eval)
  from t have t': "\<not> truthy (category marbleFolderItem) \<or> category marbleFolderItem = Some sentinel"
    by simp
  from folder_category_inferred[OF n f t'] l s n f t show ?thesis
    by simp
qed

text \<open>
  C6, as stated, fails: the folder of the claim starts with the Latin letter \<^verbatim>\<open>r\<close>, so it does
  not contain the label, and normalization leaves the category absent.
\<close>

theorem latin_r_folder_no_category:
  "folder claimFolderItem = Some (0x72 # tl catMarbleCeramic @ js ''/sub'') \<and>
   category claimFolderItem = None \<and>
   list_all (\<lambda>cat. \<not> includesStr (src claimFolderItem) cat) ZIP_CATEGORIES \<and>
   map_option category (normalizeItem claimFolderItem) = Some None"
  by (simp add: claimFolderItem_def claimFolder_def item_eval str_eval)


section \<open>Path encoding\<close>

lemma split_on_nonempty: "split_on sep s \<noteq> []"
  by (induction s) (auto split: list.splits)

lemma join_split_on: "join sep (split_on sep s) = s"
proof (induction s)
  case Nil
  show ?case by simp
next
  case (Cons c s)
  show ?case
  proof (cases "c = sep")
    case True
    with Cons show ?thesis by (cases "split_on sep s") auto
  next
    case False
    with Cons show ?thesis
      by (cases "split_on sep s"; cases "tl (split_on sep s)") auto
  qed
qed

lemma split_on_parts: "p \<in> set (split_on sep s) \<Longrightarrow> set p \<subseteq> set s \<and> sep \<notin> set p"
proof (induction s arbitrary: p)
  case Nil
  then show ?case by simp
next
  case (Cons c s)
  show ?case
  proof (cases "c = sep")
    case True
    with Cons show ?thesis by auto
  next
    case False
    obtain q qs where q: "split_on sep s = q # qs"
      using split_on_nonempty[of sep s] by (cases "split_on sep s") auto
    with Cons.prems False have "p = c # q \<or> p \<in> set qs" by simp
    with Cons.IH[of q] Cons.IH[of p] q False show ?thesis by auto
  qed
qed

lemma split_on_hd:
  "hd (split_on sep s) = takeWhile (\<lambda>c. c \<noteq> sep) s"
  using split_on_nonempty[of sep] by (induction s) (auto split: list.splits)


lemma hexDigit_unreserved: "n < 16 \<Longrightarrow> isUnreserved (hexDigit n)"
proof -
  assume "n < 16"
  then have "hexDigit n \<in> set (js ''0123456789ABCDEF'')"
    unfolding hexDigit_def by (intro nth_mem) (simp add: js_def)
  moreover have "\<forall>c\<in>set (js ''0123456789ABCDEF''). isUnreserved c"
    by (simp add: js_def isUnreserved_def)
  ultimately show ?thesis by blast
qed

lemma utf8_octets: "cp < 0x110000 \<Longrightarrow> b \<in> set (utf8 cp) \<Longrightarrow> b < 256"
  by (auto simp: utf8_def split: if_splits)

lemma utf8_nonempty: "utf8 cp \<noteq> []"
  by (simp add: utf8_def)

lemma percentEncode_chars:
  "\<forall>b\<in>set octets. b < 256 \<Longrightarrow> c \<in> set (percentEncode octets) \<Longrightarrow> isUnreserved c \<or> c = percent"
proof (induction octets)
  case Nil
  then show ?case by (simp add: percentEncode_def)
next
  case (Cons b bs)
  from Cons.prems(1) have "b div 16 < 16" "b mod 16 < 16" by auto
  then have "isUnreserved (hexDigit (b div 16))" "isUnreserved (hexDigit (b mod 16))"
    by (simp_all add: hexDigit_unreserved)
  with Cons show ?case by (auto simp: percentEncode_def)
qed

lemma percentEncode_nonempty: "octets \<noteq> [] \<Longrightarrow> percentEncode octets \<noteq> []"
  by (cases octets) (simp_all add: percentEncode_def)

lemma unat_jschar_bound: "unat (c :: jschar) < 0x110000"
proof -
  have "unat c < 2 ^ LENGTH(16)" by (rule unsigned_less)
  then show ?thesis by simp
qed

lemma pairCodePoint_bound:
  assumes "isLeadSurrogate c" and "isTrailSurrogate d"
  shows "pairCodePoint c d < 0x110000"
proof -
  from assms have "unat c \<le> 0xDBFF" "unat d \<le> 0xDFFF"
    by (simp_all add: isLeadSurrogate_def isTrailSurrogate_def word_le_nat_alt)
  then show ?thesis by (simp add: pairCodePoint_def)
qed

lemma encoded_chars:
  "encodeURIComponent s = Some t \<Longrightarrow> c \<in> set t \<Longrightarrow> isUnreserved c \<or> c = percent"
proof (induction s arbitrary: t rule: encodeURIComponent.induct)
  case 1
  then show ?case by simp
next
  case (2 a cs)
  show ?case
  proof (cases "isUnreserved a")
    case True
    with 2 show ?thesis by auto
  next
    case na: False
    show ?thesis
    proof (cases "isLeadSurrogate a")
      case True
      with na "2.prems"(1) obtain d ds t' where cs: "cs = d # ds" and d: "isTrailSurrogate d"
        and t': "encodeURIComponent ds = Some t'"
        and t: "t = percentEncode (utf8 (pairCodePoint a d)) @ t'"
        by (auto split: list.splits if_splits)
      from "2.prems"(2) t consider "c \<in> set (percentEncode (utf8 (pairCodePoint a d)))" | "c \<in> set t'"
        by auto
      then show ?thesis
      proof cases
        case 1
        with pairCodePoint_bound[OF True d] show ?thesis
          by (intro percentEncode_chars[of "utf8 (pairCodePoint a d)"]) (auto dest: utf8_octets)
      next
        case 2
        with "2.IH"(2)[OF na True cs d t'] show ?thesis by simp
      qed
    next
      case nl: False
      with na "2.prems"(1) obtain t' where nt: "\<not> isTrailSurrogate a"
        and t': "encodeURIComponent cs = Some t'"
        and t: "t = percentEncode (utf8 (unat a)) @ t'"
        by (auto split: if_splits)
      from "2.prems"(2) t consider "c \<in> set (percentEncode (utf8 (unat a)))" | "c \<in> set t'"
        by auto
      then show ?thesis
      proof cases
        case 1
        with unat_jschar_bound[of a] show ?thesis
          by (intro percentEncode_chars[of "utf8 (unat a)"]) (auto dest: utf8_octets)
      next
        case 2
        with "2.IH"(3)[OF na nl nt t'] show ?thesis by simp
      qed
    qed
  qed
qed

lemma encoded_nonempty: "encodeURIComponent s = Some t \<Longrightarrow> s \<noteq> [] \<Longrightarrow> t \<noteq> []"
  by (cases s) (auto simp: percentEncode_nonempty utf8_nonempty split: if_splits list.splits)

lemma encode_unreserved: "\<forall>c\<in>set t. isUnreserved c \<Longrightarrow> encodeURIComponent t = Some t"
  by (induction t) simp_all

lemma those_map_fixed: "\<forall>x\<in>set xs. f x = Some x \<Longrightarrow> those (map f xs) = Some xs"
  by (induction xs) simp_all

lemma toUpperASCII_colon: "toUpperASCII c = 0x3A \<Longrightarrow> c = 0x3A"
proof (cases "0x61 \<le> c \<and> c \<le> 0x7A")
  case True
  assume "toUpperASCII c = 0x3A"
  with True have "c - 0x20 = 0x3A" by (simp add: toUpperASCII_def)
  then have "c = 0x3A + 0x20" by (simp add: diff_eq_eq)
  with True show ?thesis by simp
next
  case False
  assume "toUpperASCII c = 0x3A"
  with False show ?thesis by (auto simp: toUpperASCII_def split: if_splits)
qed

lemma startsWithCI_nth:
  assumes "startsWithCI p pat" and "i < length pat"
  shows "i < length p \<and> toUpperASCII (p ! i) = toUpperASCII (pat ! i)"
proof -
  from assms(1) have m: "map toUpperASCII (take (length pat) p) = map toUpperASCII pat"
    by (simp add: startsWithCI_def eqCI_def)
  then have "length (take (length pat) p) = length pat"
    by (rule map_eq_imp_length_eq)
  with assms(2) have l: "i < length p" by simp
  from m have "map toUpperASCII (take (length pat) p) ! i = map toUpperASCII pat ! i"
    by simp
  with assms(2) l have "toUpperASCII (p ! i) = toUpperASCII (pat ! i)"
    by simp
  with l show ?thesis by simp
qed

lemma startsWithCI_http_colon: "startsWithCI p (js ''http://'') \<Longrightarrow> 0x3A \<in> set p"
proof -
  assume "startsWithCI p (js ''http://'')"
  from startsWithCI_nth[OF this, of 4]
  have "4 < length p" and "toUpperASCII (p ! 4) = 0x3A"
    by (simp_all add: js_def toUpperASCII_def)
  then show ?thesis using toUpperASCII_colon nth_mem by metis
qed

lemma startsWithCI_https_colon: "startsWithCI p (js ''https://'') \<Longrightarrow> 0x3A \<in> set p"
proof -
  assume "startsWithCI p (js ''https://'')"
  from startsWithCI_nth[OF this, of 5]
  have "5 < length p" and "toUpperASCII (p ! 5) = 0x3A"
    by (simp_all add: js_def toUpperASCII_def)
  then show ?thesis using toUpperASCII_colon nth_mem by metis
qed

lemma hasProto_colon: "hasProto p \<Longrightarrow> 0x3A \<in> set p"
  unfolding hasProto_def using startsWithCI_http_colon startsWithCI_https_colon by blast

lemma path_chars_no_colon:
  "\<not> isUnreserved 0x3A" "percent \<noteq> 0x3A" "slash \<noteq> 0x3A" "\<not> isUnreserved slash"
  "percent \<noteq> slash"
  by (simp_all add: isUnreserved_def js_def percent_def slash_def)


lemma set_join: "c \<in> set (join sep ps) \<Longrightarrow> c = sep \<or> (\<exists>p\<in>set ps. c \<in> set p)"
  by (induction sep ps rule: join.induct) auto

lemma hd_join: "t0 \<noteq> [] \<Longrightarrow> hd (join sep (t0 # ts)) = hd t0"
  by (cases ts) simp_all

lemma normalizeUrlPath_shape:
  assumes "normalizeUrlPath p = Some e" and "p \<noteq> []" and "\<not> hasProto p"
  shows "(\<forall>c\<in>set e. isUnreserved c \<or> c = percent \<or> c = slash) \<and> \<not> startsWith e [slash, slash]"
proof -
  define q where "q = dropWhile (\<lambda>c. c = slash) p"
  define leading where "leading = (if startsWith p [slash] then [slash] else [])"
  from assms obtain parts where parts: "those (map encodeURIComponent (split_on slash q)) = Some parts"
    and e: "e = leading @ join slash parts"
    by (auto simp: normalizeUrlPath_def Let_def q_def leading_def split: option.splits)
  let ?j = "join slash parts"
  from those_map_Some[OF parts]
  have l2: "list_all2 (\<lambda>x y. encodeURIComponent x = Some y) (split_on slash q) parts" .
  have pc: "isUnreserved c \<or> c = percent" if "t \<in> set parts" "c \<in> set t" for t c
  proof -
    from l2 that(1) obtain s where "encodeURIComponent s = Some t"
      by (auto simp: list_all2_conv_all_nth in_set_conv_nth)
    then show ?thesis using that(2) by (rule encoded_chars)
  qed
  have chars: "\<forall>c\<in>set e. isUnreserved c \<or> c = percent \<or> c = slash"
  proof
    fix c assume "c \<in> set e"
    with e have "c = slash \<or> c \<in> set ?j"
      by (auto simp: leading_def split: if_splits)
    with set_join[of c slash parts] pc show "isUnreserved c \<or> c = percent \<or> c = slash"
      by blast
  qed
  have j: "?j = [] \<or> hd ?j \<noteq> slash"
  proof (cases "q = []")
    case True
    with l2 have "parts = [[]]"
      by (simp add: list_all2_Cons1)
    then show ?thesis by simp
  next
    case False
    then have hq: "hd q \<noteq> slash"
      unfolding q_def using hd_dropWhile[of "\<lambda>c. c = slash" p] by simp
    obtain s0 ss where ss: "split_on slash q = s0 # ss"
      using split_on_nonempty[of slash q] by (cases "split_on slash q") auto
    with split_on_hd[of slash q] have s0: "s0 = takeWhile (\<lambda>c. c \<noteq> slash) q" by simp
    from False hq have "s0 \<noteq> []" unfolding s0 by (cases q) auto
    from l2 ss obtain t0 ts where ps: "parts = t0 # ts" and t0: "encodeURIComponent s0 = Some t0"
      by (auto simp: list_all2_Cons1)
    from encoded_nonempty[OF t0 \<open>s0 \<noteq> []\<close>] have ne: "t0 \<noteq> []" .
    then have "hd t0 \<in> set t0" by simp
    with pc[of t0 "hd t0"] ps have "hd t0 \<noteq> slash"
      using path_chars_no_colon by auto
    with hd_join[OF ne, of slash ts] ps show ?thesis by simp
  qed
  have "\<not> startsWith e [slash, slash]"
  proof (cases "startsWith p [slash]")
    case True
    with e have "e = slash # ?j" by (simp add: leading_def)
    with j show ?thesis by (cases ?j) (auto simp: startsWith_def)
  next
    case False
    with assms(2) have "q = p" unfolding q_def by (cases p) (auto simp: startsWith_def)
    with assms(2) have "q \<noteq> []" by simp
    from False e have ej: "e = ?j" by (simp add: leading_def)
    from False assms(2) have hp: "hd p \<noteq> slash" by (cases p) (auto simp: startsWith_def)
    show ?thesis
    proof (cases e)
      case Nil
      then show ?thesis by (simp add: startsWith_def)
    next
      case (Cons a e')
      with ej have "join slash parts = a # e'" by simp
      with j have "a \<noteq> slash" by auto
      with Cons show ?thesis by (simp add: startsWith_def)
    qed
  qed
  with chars show ?thesis by blast
qed

lemma normalizeUrlPath_fixed:
  assumes "\<forall>c\<in>set e. isUnreserved c \<or> c = slash" and "\<not> startsWith e [slash, slash]"
  shows "normalizeUrlPath e = Some e"
proof (cases "e = []")
  case True
  then show ?thesis by (simp add: normalizeUrlPath_def)
next
  case False
  define q where "q = dropWhile (\<lambda>c. c = slash) e"
  from assms(1) have np: "\<not> hasProto e"
    using hasProto_colon[of e] path_chars_no_colon by auto
  have "\<forall>x\<in>set (split_on slash q). encodeURIComponent x = Some x"
  proof
    fix x assume x: "x \<in> set (split_on slash q)"
    from split_on_parts[OF x] have "set x \<subseteq> set q" "slash \<notin> set x" by simp_all
    moreover have "set q \<subseteq> set e" unfolding q_def by (auto dest: set_dropWhileD)
    ultimately have "\<forall>c\<in>set x. isUnreserved c" using assms(1) by blast
    then show "encodeURIComponent x = Some x" by (rule encode_unreserved)
  qed
  then have th: "those (map encodeURIComponent (split_on slash q)) = Some (split_on slash q)"
    by (rule those_map_fixed)
  have "(if startsWith e [slash] then [slash] else []) @ q = e"
  proof (cases e)
    case Nil
    with False show ?thesis by simp
  next
    case (Cons a e')
    show ?thesis
    proof (cases "a = slash")
      case True
      with assms(2) Cons have "e' = [] \<or> hd e' \<noteq> slash"
        by (cases e') (auto simp: startsWith_def)
      then have "dropWhile (\<lambda>c. c = slash) e' = e'" by (cases e') auto
      with True Cons show ?thesis by (simp add: q_def startsWith_def)
    next
      case False
      with Cons show ?thesis by (simp add: q_def startsWith_def)
    qed
  qed
  with False np th show ?thesis
    by (simp add: normalizeUrlPath_def Let_def q_def join_split_on)
qed

lemma normalizeUrlPath_idem:
  assumes "normalizeUrlPath p = Some e" and "hasProto e \<or> percent \<notin> set e"
  shows "normalizeUrlPath e = Some e"
proof (cases "p = [] \<or> hasProto p")
  case True
  with assms(1) have "e = p" by (auto simp: normalizeUrlPath_def split: if_splits)
  with True show ?thesis by (auto simp: normalizeUrlPath_def split: if_splits)
next
  case False
  with normalizeUrlPath_shape[OF assms(1)]
  have c: "\<forall>c\<in>set e. isUnreserved c \<or> c = percent \<or> c = slash"
    and s: "\<not> startsWith e [slash, slash]" by simp_all
  from c have "\<not> hasProto e" using hasProto_colon[of e] path_chars_no_colon by auto
  with assms(2) have "percent \<notin> set e" by simp
  with c have "\<forall>c\<in>set e. isUnreserved c \<or> c = slash" by auto
  then show ?thesis using s by (rule normalizeUrlPath_fixed)
qed

section \<open>Normalizer: idempotence\<close>

lemma normalizeItem_idem:
  assumes n: "normalizeItem it = Some m" and h: "hasProto (src m) \<or> percent \<notin> set (src m)"
  shows "normalizeItem m = Some m"
proof -
  from n obtain e where e: "normalizeUrlPath (src it) = Some e"
    by (auto simp: normalizeItem_def split: option.splits)
  define c1 where "c1 = deriveCategoryFromPath (it\<lparr>src := e\<rparr>)"
  define d1 where "d1 = buildDisplayName (it\<lparr>src := e, category := c1\<rparr>)"
  define y1 where "y1 = (case matchYearMonth e of
                          Some (y, mo) \<Rightarrow> if missingOrUnknown (year it) then Some y else year it
                        | None \<Rightarrow> year it)"
  define mo1 where "mo1 = (case matchYearMonth e of
                          Some (y, mo) \<Rightarrow> if missingOrUnknown (month it) then Some mo else month it
                        | None \<Rightarrow> month it)"
  from n e have m: "m = it\<lparr>src := e, year := y1, month := mo1, category := c1,
                          displayName := Some d1\<rparr>"
    by (simp add: normalizeItem_def Let_def c1_def d1_def y1_def mo1_def)
  from normalizeUrlPath_idem[OF e] h m have f: "normalizeUrlPath (src m) = Some e"
    by simp
  have c2: "deriveCategoryFromPath (m\<lparr>src := e\<rparr>) = c1"
    by (simp add: m c1_def deriveCategoryFromPath_def Let_def)
  have d2: "buildDisplayName (m\<lparr>src := e, category := c1\<rparr>) = d1"
    by (simp add: m d1_def buildDisplayName_def Let_def)
  have y2: "(case matchYearMonth e of
               Some (y, mo) \<Rightarrow> if missingOrUnknown (year m) then Some y else year m
             | None \<Rightarrow> year m) = y1"
    by (simp add: m y1_def split: option.splits)
  have mo2: "(case matchYearMonth e of
               Some (y, mo) \<Rightarrow> if missingOrUnknown (month m) then Some mo else month m
             | None \<Rightarrow> month m) = mo1"
    by (simp add: m mo1_def split: option.splits)
  have "normalizeItem m = Some (m\<lparr>src := e, year := y1, month := mo1, category := c1,
                          displayName := Some d1\<rparr>)"
    unfolding normalizeItem_def f Let_def option.case c2 d2 y2 mo2 ..
  also have "\<dots> = Some m" by (simp add: m)
  finally show ?thesis .
qed

lemma those_map_fixed_filter:
  assumes "\<forall>x\<in>set xs. f x = Some x" and "\<forall>x\<in>set xs. P x"
  shows "map_option (filter P) (those (map f xs)) = Some xs"
  using assms by (simp add: those_map_fixed)

text \<open>
  C1. Normalization is idempotent on its output whenever every item of the output has a
  \<^verbatim>\<open>src\<close> that is an absolute \<^verbatim>\<open>http(s)\<close> URL or contains no \<^verbatim>\<open>%\<close>, that is, whenever no path
  segment needed a percent-escape: then normalizing the output returns the output itself,
  every field unchanged.
\<close>

theorem normalizeItems_idempotent:
  assumes "normalizeItems toLowerCase arr = Some out"
    and "\<forall>m\<in>set out. hasProto (src m) \<or> percent \<notin> set (src m)"
  shows "normalizeItems toLowerCase out = Some out"
proof -
  from assms(1) obtain ys where ys: "those (map normalizeItem arr) = Some ys"
    and out: "out = filter (keepItem toLowerCase) ys"
    by (auto simp: normalizeItems_def)
  have fixed: "\<forall>m\<in>set out. normalizeItem m = Some m"
  proof
    fix m assume m: "m \<in> set out"
    with out have "m \<in> set ys" by simp
    with those_map_Some[OF ys] obtain it where "normalizeItem it = Some m"
      by (auto simp: list_all2_conv_all_nth in_set_conv_nth)
    moreover from assms(2) m have "hasProto (src m) \<or> percent \<notin> set (src m)" by blast
    ultimately show "normalizeItem m = Some m" by (rule normalizeItem_idem)
  qed
  from out have "\<forall>m\<in>set out. keepItem toLowerCase m" by simp
  with fixed show ?thesis
    unfolding normalizeItems_def by (rule those_map_fixed_filter)
qed

lemmas uri_eval = percentEncode_def utf8_def hexDigit_def isLeadSurrogate_def isTrailSurrogate_def
  readOctet_def hexVal_def leadingOnes_def isCont_def utf8Decode_def utf16_def

lemma normalize_spaceItem:
  "normalizeItems asciiLower [spaceItem]
     = Some [spaceItem\<lparr>src := js ''/media/a%20b.jpg'', displayName := Some (js ''photo'')\<rparr>]"
  by (simp add: spaceItem_def item_eval str_eval uri_eval)

lemma normalize_spaceItem_again:
  "normalizeItems asciiLower
     [spaceItem\<lparr>src := js ''/media/a%20b.jpg'', displayName := Some (js ''photo'')\<rparr>]
     = Some [spaceItem\<lparr>src := js ''/media/a%2520b.jpg'', displayName := Some (js ''photo'')\<rparr>]"
  by (simp add: spaceItem_def item_eval str_eval uri_eval)

text \<open>
  C1, as stated, fails: the path \<^verbatim>\<open>/media/a b.jpg\<close> is encoded to \<^verbatim>\<open>/media/a%20b.jpg\<close>, and
  normalizing that output encodes the \<^verbatim>\<open>%\<close> again, to \<^verbatim>\<open>/media/a%2520b.jpg\<close>.
\<close>

theorem normalize_twice_differs:
  "map_option (map src) (normalizeItems asciiLower [spaceItem]) = Some [js ''/media/a%20b.jpg''] \<and>
   map_option (map src) (Option.bind (normalizeItems asciiLower [spaceItem]) (normalizeItems asciiLower))
     = Some [js ''/media/a%2520b.jpg''] \<and>
   Option.bind (normalizeItems asciiLower [spaceItem]) (normalizeItems asciiLower)
     \<noteq> normalizeItems asciiLower [spaceItem]"
  by (simp add: normalize_spaceItem normalize_spaceItem_again)
     (simp add: spaceItem_def baseItem_def js_def)

lemma normalize_baseItem:
  "normalizeItems asciiLower [baseItem] = Some [baseItem\<lparr>displayName := Some (js ''photo'')\<rparr>]"
  by (simp add: item_eval str_eval)

theorem normalizeItems_idempotent_witness:
  "normalizeItems asciiLower [baseItem] = Some [baseItem\<lparr>displayName := Some (js ''photo'')\<rparr>] \<and>
   percent \<notin> set (src (baseItem\<lparr>displayName := Some (js ''photo'')\<rparr>)) \<and>
   normalizeItems asciiLower [baseItem\<lparr>displayName := Some (js ''photo'')\<rparr>]
     = Some [baseItem\<lparr>displayName := Some (js ''photo'')\<rparr>]"
proof -
  have n: "normalizeItems asciiLower [baseItem]
             = Some [baseItem\<lparr>displayName := Some (js ''photo'')\<rparr>]"
    by (rule normalize_baseItem)
  have p: "percent \<notin> set (src (baseItem\<lparr>displayName := Some (js ''photo'')\<rparr>))"
    by (simp add: baseItem_def js_def percent_def)
  then have h: "\<forall>m\<in>set [baseItem\<lparr>displayName := Some (js ''photo'')\<rparr>].
                  hasProto (src m) \<or> percent \<notin> set (src m)"
    by simp
  from normalizeItems_idempotent[OF n h] n p show ?thesis by blast
qed

section \<open>CSV round trip\<close>

lemma replaceCRLF_append:
  "\<not> (a \<noteq> [] \<and> last a = CR \<and> b \<noteq> [] \<and> hd b = LF) \<Longrightarrow>
   replaceCRLF (a @ b) = replaceCRLF a @ replaceCRLF b"
proof (induction a rule: replaceCRLF.induct)
  case 1
  show ?case by simp
next
  case (2 x)
  then show ?case by (cases b) auto
next
  case (3 x y zs)
  then show ?case by (cases zs) (auto split: if_splits)
qed

lemma replaceCRLF_no_CR: "CR \<notin> set v \<Longrightarrow> replaceCRLF v = v"
  by (induction v rule: replaceCRLF.induct) auto

lemma char_neq:
  "dquote \<noteq> CR" "dquote \<noteq> LF" "dquote \<noteq> comma" "comma \<noteq> CR" "comma \<noteq> LF" "LF \<noteq> CR"
  "CR \<noteq> dquote" "LF \<noteq> dquote" "comma \<noteq> dquote" "CR \<noteq> comma" "LF \<noteq> comma" "CR \<noteq> LF"
  by (simp_all add: dquote_def comma_def CR_def LF_def)

lemma escapeQuotes_simps:
  "escapeQuotes [] = []"
  "escapeQuotes (c # v) = (if c = dquote then [dquote, dquote] else [c]) @ escapeQuotes v"
  by (simp_all add: escapeQuotes_def)

lemma replaceCRLF_escapeQuotes: "replaceCRLF (escapeQuotes v) = escapeQuotes (replaceCRLF v)"
proof (induction v rule: replaceCRLF.induct)
  case 1
  show ?case by (simp add: escapeQuotes_simps)
next
  case (2 x)
  show ?case by (simp add: escapeQuotes_simps char_neq)
next
  case (3 x y zs)
  show ?case
  proof (cases "x = CR \<and> y = LF")
    case True
    with 3 show ?thesis by (simp add: escapeQuotes_simps char_neq)
  next
    case False
    let ?x = "if x = dquote then [dquote, dquote] else [x]"
    have "replaceCRLF (?x @ escapeQuotes (y # zs)) = replaceCRLF ?x @ replaceCRLF (escapeQuotes (y # zs))"
      using False by (intro replaceCRLF_append) (auto simp: escapeQuotes_simps char_neq)
    moreover have "replaceCRLF ?x = ?x"
      by (simp add: char_neq)
    moreover from False 3 have "replaceCRLF (escapeQuotes (y # zs)) = escapeQuotes (replaceCRLF (y # zs))"
      by blast
    moreover from False have "replaceCRLF (x # y # zs) = x # replaceCRLF (y # zs)"
      by auto
    ultimately show ?thesis
      by (simp only: escapeQuotes_simps)
  qed
qed

lemma replaceCRLF_set:
  "set (replaceCRLF v) \<subseteq> set v"
  by (induction v rule: replaceCRLF.induct) auto

lemma replaceCRLF_keeps:
  "c \<noteq> CR \<Longrightarrow> c \<in> set v \<Longrightarrow> c \<in> set (replaceCRLF v)"
  by (induction v rule: replaceCRLF.induct) (auto simp: CR_def LF_def)

lemma replaceCRLF_CR_LF:
  "CR \<in> set v \<Longrightarrow> CR \<in> set (replaceCRLF v) \<or> LF \<in> set (replaceCRLF v)"
  by (induction v rule: replaceCRLF.induct) (auto simp: CR_def LF_def)

lemma needsQuoting_replaceCRLF: "needsQuoting (replaceCRLF v) = needsQuoting v"
proof -
  have ne: "comma \<noteq> CR" "dquote \<noteq> CR" "LF \<noteq> CR"
    by (simp_all add: comma_def dquote_def CR_def LF_def)
  show ?thesis
    unfolding needsQuoting_def
    using replaceCRLF_set[of v] replaceCRLF_keeps[of _ v] replaceCRLF_CR_LF[of v] ne
    by blast
qed

lemma csvField_replaceCRLF: "replaceCRLF (csvField v) = csvField (replaceCRLF v)"
proof (cases "needsQuoting v")
  case True
  note dq = char_neq
  have "replaceCRLF (dquote # escapeQuotes v @ [dquote])
          = replaceCRLF ([dquote] @ (escapeQuotes v @ [dquote]))" by simp
  also have "\<dots> = replaceCRLF [dquote] @ replaceCRLF (escapeQuotes v @ [dquote])"
    using dq by (intro replaceCRLF_append) simp
  also have "replaceCRLF (escapeQuotes v @ [dquote]) = replaceCRLF (escapeQuotes v) @ replaceCRLF [dquote]"
    using dq by (intro replaceCRLF_append) simp
  finally show ?thesis
    using True by (simp add: csvField_def needsQuoting_replaceCRLF replaceCRLF_escapeQuotes)
next
  case False
  then have "replaceCRLF v = v"
    by (intro replaceCRLF_no_CR) (simp add: needsQuoting_def)
  with False show ?thesis by (simp add: csvField_def)
qed

lemma csvField_last: "csvField v \<noteq> [] \<Longrightarrow> last (csvField v) \<noteq> CR"
proof (cases "needsQuoting v")
  case True
  then show ?thesis by (simp add: csvField_def char_neq)
next
  case False
  assume "csvField v \<noteq> []"
  with False have "v \<noteq> []" by (simp add: csvField_def)
  then have "last v \<in> set v" by simp
  with False show ?thesis by (auto simp: csvField_def needsQuoting_def)
qed

lemma join_fields_replaceCRLF:
  "replaceCRLF (join comma (map csvField vs)) = join comma (map csvField (map replaceCRLF vs)) \<and>
   (join comma (map csvField vs) \<noteq> [] \<longrightarrow> last (join comma (map csvField vs)) \<noteq> CR)"
proof (induction vs)
  case Nil
  show ?case by simp
next
  case (Cons v vs)
  show ?case
  proof (cases vs)
    case Nil
    then show ?thesis by (simp add: csvField_replaceCRLF csvField_last)
  next
    case (Cons w ws)
    let ?J = "join comma (map csvField (w # ws))"
    have "replaceCRLF (csvField v @ (comma # ?J)) = replaceCRLF (csvField v) @ replaceCRLF (comma # ?J)"
      by (intro replaceCRLF_append) (simp add: char_neq)
    moreover have "replaceCRLF ([comma] @ ?J) = replaceCRLF [comma] @ replaceCRLF ?J"
      by (intro replaceCRLF_append) (simp add: char_neq)
    moreover have "last (csvField v @ comma # ?J) \<noteq> CR"
      using Cons.IH Cons by (cases "?J = []") (simp_all add: char_neq)
    ultimately show ?thesis
      using Cons.IH Cons by (simp add: csvField_replaceCRLF)
  qed
qed

lemma csvLine_replaceCRLF:
  assumes "eol = [LF] \<or> eol = [CR, LF]"
  shows "replaceCRLF (csvLine eol vs @ rest) = csvLine [LF] (map replaceCRLF vs) @ replaceCRLF rest"
proof -
  let ?J = "join comma (map csvField vs)"
  have e: "replaceCRLF (eol @ rest) = LF # replaceCRLF rest"
  proof -
    have "replaceCRLF ([LF] @ rest) = replaceCRLF [LF] @ replaceCRLF rest"
      by (intro replaceCRLF_append) (simp add: char_neq)
    with assms show ?thesis by auto
  qed
  have "replaceCRLF (?J @ (eol @ rest)) = replaceCRLF ?J @ replaceCRLF (eol @ rest)"
    using join_fields_replaceCRLF[of vs] by (intro replaceCRLF_append) blast
  with e join_fields_replaceCRLF[of vs] show ?thesis
    by (simp add: csvLine_def)
qed

lemma lines_replaceCRLF:
  assumes "eol = [LF] \<or> eol = [CR, LF]"
  shows "replaceCRLF (concat (map (csvLine eol) rows))
           = concat (map (csvLine [LF]) (map (map replaceCRLF) rows))"
proof (induction rows)
  case Nil
  show ?case by simp
next
  case (Cons r rows)
  from csvLine_replaceCRLF[OF assms, of r "concat (map (csvLine eol) rows)"] Cons
  show ?case by simp
qed

lemma scan_unquoted:
  "\<not> needsQuoting v \<Longrightarrow>
   scanCSV False cur row rows (v @ rest) = scanCSV False (cur @ v) row rows rest"
  by (induction v arbitrary: cur) (auto simp: needsQuoting_def)

lemma scan_quoted:
  "rest = [] \<or> hd rest \<noteq> dquote \<Longrightarrow>
   scanCSV True cur row rows (escapeQuotes v @ dquote # rest) = scanCSV False (cur @ v) row rows rest"
proof (induction v arbitrary: cur)
  case Nil
  then show ?case by (cases rest) (auto simp: escapeQuotes_simps)
next
  case (Cons c v)
  then show ?case by (simp add: escapeQuotes_simps)
qed

lemma scan_field:
  assumes "rest = [] \<or> hd rest = comma \<or> hd rest = LF"
  shows "scanCSV False [] row rows (csvField v @ rest) = scanCSV False v row rows rest"
proof (cases "needsQuoting v")
  case True
  from assms have "rest = [] \<or> hd rest \<noteq> dquote" by (auto simp: char_neq)
  from scan_quoted[OF this, of "[]" row rows v] True show ?thesis
    by (simp add: csvField_def)
next
  case False
  with scan_unquoted[OF False, of "[]" row rows rest] show ?thesis
    by (simp add: csvField_def)
qed

lemma scan_line:
  "vs \<noteq> [] \<Longrightarrow>
   scanCSV False [] row rows (join comma (map csvField vs) @ LF # rest)
     = scanCSV False [] [] (rows @ [row @ vs]) rest"
proof (induction vs arbitrary: row)
  case Nil
  then show ?case by simp
next
  case (Cons v vs)
  show ?case
  proof (cases vs)
    case Nil
    with scan_field[of "LF # rest" row rows v] show ?thesis
      by (simp add: char_neq)
  next
    case (Cons w ws)
    let ?tail = "join comma (map csvField (w # ws)) @ LF # rest"
    from scan_field[of "comma # ?tail" row rows v]
    have "scanCSV False [] row rows (csvField v @ comma # ?tail) = scanCSV False v row rows (comma # ?tail)"
      by simp
    also have "\<dots> = scanCSV False [] (row @ [v]) rows ?tail"
      by (simp add: char_neq)
    also have "\<dots> = scanCSV False [] [] (rows @ [(row @ [v]) @ (w # ws)]) rest"
      using Cons.IH[of "row @ [v]"] Cons by simp
    finally show ?thesis using Cons by simp
  qed
qed

lemma scan_lines:
  "\<forall>r\<in>set rs. r \<noteq> [] \<Longrightarrow>
   scanCSV False [] [] rows (concat (map (csvLine [LF]) rs)) = ([], [], rows @ rs)"
proof (induction rs arbitrary: rows)
  case Nil
  show ?case by simp
next
  case (Cons r rs)
  then have r: "r \<noteq> []" and rs: "\<forall>r\<in>set rs. r \<noteq> []" by simp_all
  let ?rest = "concat (map (csvLine [LF]) rs)"
  have "concat (map (csvLine [LF]) (r # rs)) = join comma (map csvField r) @ LF # ?rest"
    by (simp add: csvLine_def [of "[LF]" r])
  then have "scanCSV False [] [] rows (concat (map (csvLine [LF]) (r # rs)))
               = scanCSV False [] [] (rows @ [[] @ r]) ?rest"
    using scan_line[OF r, of "[]" rows ?rest] by simp
  also have "\<dots> = ([], [], (rows @ [r]) @ rs)"
    using Cons.IH[OF rs, of "rows @ [r]"] by simp
  finally show ?case by simp
qed

lemma HEADERS_facts:
  "length HEADERS = 14" "distinct HEADERS" "map trim HEADERS = HEADERS"
  "map replaceCRLF HEADERS = HEADERS" "HEADERS \<noteq> []"
  by (simp_all add: HEADERS_def js_def trim_def isWhiteSpace_def CR_def LF_def)

lemma toCSV_head: "\<exists>rest. toCSV eol records = 0x69 # rest"
  by (simp add: toCSV_def csvLine_def HEADERS_def csvField_def needsQuoting_def js_def
      comma_def dquote_def LF_def CR_def)

lemma stripBOM_toCSV: "stripBOM (toCSV eol records) = toCSV eol records"
proof -
  from toCSV_head obtain rest where "toCSV eol records = 0x69 # rest" by blast
  then show ?thesis by (simp add: stripBOM_def)
qed

lemma parseCSV_toCSV:
  assumes "eol = [LF] \<or> eol = [CR, LF]" and "\<forall>r\<in>set records. length r = length HEADERS"
  shows "parseCSV (toCSV eol records) = HEADERS # map (map replaceCRLF) records"
proof -
  let ?rows = "HEADERS # map (map replaceCRLF) records"
  have "replaceCRLF (stripBOM (toCSV eol records)) = replaceCRLF (toCSV eol records)"
    by (simp only: stripBOM_toCSV)
  also have "\<dots> = concat (map (csvLine [LF]) (map (map replaceCRLF) (HEADERS # records)))"
    unfolding toCSV_def by (rule lines_replaceCRLF[OF assms(1)])
  also have "\<dots> = concat (map (csvLine [LF]) ?rows)"
    by (simp add: HEADERS_facts)
  finally have t: "replaceCRLF (stripBOM (toCSV eol records)) = concat (map (csvLine [LF]) ?rows)" .
  from assms(2) have len: "\<forall>r\<in>set ?rows. length r = 14"
    by (simp add: HEADERS_facts)
  then have "\<forall>r\<in>set ?rows. r \<noteq> []" by auto
  from scan_lines[OF this, of "[]"]
  have s: "scanCSV False [] [] [] (concat (map (csvLine [LF]) ?rows)) = ([], [], ?rows)"
    by simp
  from len have "\<forall>r\<in>set ?rows. keepRow r"
    by (auto simp: keepRow_def)
  then have "filter keepRow ?rows = ?rows"
    by (simp only: filter_True)
  then show ?thesis
    unfolding parseCSV_def t s by simp
qed

lemma rowObj_distinct:
  assumes "distinct hs" and "j < length hs"
  shows "rowObj hs r (hs ! j) = Some (trim (cell r j))"
proof -
  from assms have "\<forall>m<length hs. j < m \<longrightarrow> hs ! m \<noteq> hs ! j"
    by (auto simp: nth_eq_iff_index_eq)
  with assms(2) show ?thesis
    unfolding rowObj_def assignCells_Some_iff by auto
qed

text \<open>
  C2. For records serialized with the documented header order, RFC 4180 quoting and either
  line break, \<^verbatim>\<open>csvToObjects\<close> returns one row object per record, and under every header
  its value is the original value with each CR LF pair replaced by LF and then trimmed of
  surrounding white space.
\<close>

theorem csv_round_trip:
  assumes "eol = [LF] \<or> eol = [CR, LF]" and "\<forall>r\<in>set records. length r = length HEADERS"
  shows "length (csvToObjects (toCSV eol records)) = length records \<and>
         (\<forall>i<length records. \<forall>j<length HEADERS.
            (csvToObjects (toCSV eol records) ! i) (HEADERS ! j)
              = Some (trim (replaceCRLF (records ! i ! j))))"
proof -
  have c: "csvToObjects (toCSV eol records) = map (rowObj HEADERS) (map (map replaceCRLF) records)"
    by (simp add: csvToObjects_def parseCSV_toCSV[OF assms] HEADERS_facts)
  have "(csvToObjects (toCSV eol records) ! i) (HEADERS ! j) = Some (trim (replaceCRLF (records ! i ! j)))"
    if "i < length records" "j < length HEADERS" for i j
  proof -
    from that(1) assms(2) have "length (records ! i) = length HEADERS" by simp
    with that(2) have "cell (map replaceCRLF (records ! i)) j = replaceCRLF (records ! i ! j)"
      by (simp add: cell_def)
    with that show ?thesis
      by (simp add: c rowObj_distinct HEADERS_facts)
  qed
  with c show ?thesis by simp
qed

lemma toCSV_paddedRecord:
  "csvToObjects (toCSV [LF] [paddedRecord]) = [rowObj HEADERS paddedRecord]"
proof -
  have "\<forall>r\<in>set [paddedRecord]. length r = length HEADERS"
    by (simp add: paddedRecord_def HEADERS_facts)
  from parseCSV_toCSV[OF _ this, of "[LF]"]
  have "parseCSV (toCSV [LF] [paddedRecord]) = [HEADERS, paddedRecord]"
    by (simp add: paddedRecord_def js_def CR_def LF_def)
  then show ?thesis by (simp add: csvToObjects_def HEADERS_facts)
qed

text \<open>
  C2, as stated, fails: the \<^verbatim>\<open>id\<close> value \<^verbatim>\<open>" 1"\<close> comes back as \<^verbatim>\<open>"1"\<close>, without its
  leading space.
\<close>

theorem csv_round_trip_trims:
  "paddedRecord ! 0 = js '' 1'' \<and>
   (csvToObjects (toCSV [LF] [paddedRecord]) ! 0) (js ''id'') = Some (js ''1'') \<and>
   js ''1'' \<noteq> js '' 1''"
  by (simp add: toCSV_paddedRecord)
     (simp add: rowObj_def HEADERS_def paddedRecord_def cell_def js_def trim_def isWhiteSpace_def)

theorem csv_round_trip_witness:
  "length paddedRecord = length HEADERS \<and>
   length (csvToObjects (toCSV [CR, LF] [paddedRecord])) = 1 \<and>
   (csvToObjects (toCSV [CR, LF] [paddedRecord]) ! 0) (js ''src'') = Some (js ''/media/a.jpg'')"
proof -
  have l: "length paddedRecord = length HEADERS"
    by (simp add: paddedRecord_def HEADERS_facts)
  then have a: "\<forall>r\<in>set [paddedRecord]. length r = length HEADERS" by simp
  have e: "[CR, LF] = [LF] \<or> [CR, LF] = [CR, LF]" by simp
  have h: "HEADERS ! 6 = js ''src''" by (simp add: HEADERS_def)
  have v: "trim (replaceCRLF ([paddedRecord] ! 0 ! 6)) = js ''/media/a.jpg''"
    by (simp add: paddedRecord_def js_def trim_def isWhiteSpace_def CR_def LF_def)
  from csv_round_trip[OF e a] have
    "length (csvToObjects (toCSV [CR, LF] [paddedRecord])) = 1"
    "(csvToObjects (toCSV [CR, LF] [paddedRecord]) ! 0) (HEADERS ! 6)
       = Some (trim (replaceCRLF ([paddedRecord] ! 0 ! 6)))"
    by (simp_all add: HEADERS_facts)
  with l h v show ?thesis by simp
qed

end
